theory Spec2Isabelle
  imports Complex_Main "HOL-Library.Log_Nat"
begin

section \<open>The hierarchical timing wheel of ttimer.c\<close>

text \<open>
  The embedding follows \<^verbatim>\<open>src/ttimer.c\<close> function by function.

  \<^item> \<^verbatim>\<open>time_t\<close> is modelled as \<open>int\<close>: signed overflow is undefined in C, and for
    hands below 256 and a timeout \<open>t\<close> every intermediate value of \<^verbatim>\<open>ttimer_start\<close>
    lies between 0 and \<open>t + 255\<close>, so the model is exact wherever the C is defined.
  \<^item> \<^verbatim>\<open>unsigned\<close> values (hand, level, r, multiplier) are \<open>nat\<close>: the hand is only
    read through \<^verbatim>\<open>MOD_BY_BUCKETS\<close> or added to a \<^verbatim>\<open>time_t\<close>, and the multiplier
    never exceeds \<open>256 ^ 3\<close>, so no 32-bit wrap-around is observable.
  \<^item> A \<^verbatim>\<open>ttimer_ref_t\<close> lives in caller memory: the model keeps a store \<open>refs\<close> from
    addresses to reference records. The intrusive \<^verbatim>\<open>LIST_ENTRY\<close> link of
    \<^verbatim>\<open><sys/queue.h>\<close> is represented by the bucket lists themselves: a bucket is the
    list of the addresses linked into it, head first.
  \<^item> The callback is caller code: invoking \<^verbatim>\<open>ent->func(ent, ent->arg)\<close> appends the
    triple (function, reference, argument) to the chronological list \<open>calls\<close>. In
    \<open>ttimer_tick\<close> the callback then returns, as the handler of \<^verbatim>\<open>t_ttimer.c\<close> does (it
    stores a number). In \<open>ttimer_tick_cb\<close> the callback may also call \<^verbatim>\<open>ttimer_start\<close>
    and \<^verbatim>\<open>ttimer_stop\<close> on the wheel that invoked it, before it returns.
  \<^item> Reading \<^verbatim>\<open>timer->wheel[level]\<close> beyond the allocated levels is the error
    \<open>Out_of_bounds level\<close>; a failed \<^verbatim>\<open>ASSERT\<close> is the error \<open>Assertion_failed\<close>.
\<close>

subsection \<open>Constants and data\<close>

definition WHEEL_BUCKETS :: nat where
  "WHEEL_BUCKETS = 256"

definition WHEEL_MAX_LEVELS :: nat where
  "WHEEL_MAX_LEVELS = 3"

definition DIV_BY_BUCKETS :: "int \<Rightarrow> int" where
  "DIV_BY_BUCKETS x = x div 256"

definition MOD_BY_BUCKETS :: "int \<Rightarrow> nat" where
  "MOD_BY_BUCKETS x = nat (x mod 256)"

record ttimer_ref =
  remaining :: int
  func :: "nat option"
  arg :: nat
  scheduled :: bool

record twheel =
  hand :: nat
  bucket :: "nat \<Rightarrow> nat list"

record ttimer =
  levels :: nat
  lastrun :: int
  wheel :: "twheel list"

text \<open>The wheel together with the caller's memory and the record of callback calls.\<close>

record tstate = ttimer +
  refs :: "nat \<Rightarrow> ttimer_ref"
  calls :: "(nat \<times> nat \<times> nat) list"

datatype error = Assertion_failed | Out_of_bounds nat

subsection \<open>Creation\<close>

text \<open>The \<^verbatim>\<open>while (maxtimeout > 0)\<close> loop of \<^verbatim>\<open>ttimer_create\<close>.\<close>

function count_levels :: "int \<Rightarrow> nat \<Rightarrow> nat" where
  "count_levels maxtimeout lv =
     (if maxtimeout > 0 then count_levels (DIV_BY_BUCKETS maxtimeout) (lv + 1) else lv)"
  by pat_completeness auto
termination
  by (relation "measure (\<lambda>(m, lv). nat m)") (auto simp: DIV_BY_BUCKETS_def)

definition create_levels :: "int \<Rightarrow> nat" where
  "create_levels maxtimeout =
     (let lv = count_levels maxtimeout 0
      in if lv \<noteq> 0 then min lv WHEEL_MAX_LEVELS else WHEEL_MAX_LEVELS)"

definition empty_wheel :: twheel where
  "empty_wheel = \<lparr>hand = 0, bucket = (\<lambda>i. [])\<rparr>"

text \<open>\<open>calloc_ok\<close> says whether \<^verbatim>\<open>calloc\<close> returned memory; \<open>None\<close> is the NULL result.\<close>

definition ttimer_create :: "bool \<Rightarrow> int \<Rightarrow> int \<Rightarrow> ttimer option" where
  "ttimer_create calloc_ok maxtimeout now =
     (let lv = create_levels maxtimeout
      in if \<not> calloc_ok then None
         else Some \<lparr>levels = lv, lastrun = now, wheel = replicate lv empty_wheel\<rparr>)"

text \<open>A created wheel placed beside the caller's references, before any callback ran.\<close>

definition with_refs :: "ttimer \<Rightarrow> (nat \<Rightarrow> ttimer_ref) \<Rightarrow> tstate" where
  "with_refs t rs =
     \<lparr>levels = levels t, lastrun = lastrun t, wheel = wheel t, refs = rs, calls = []\<rparr>"

definition ttimer_setfunc :: "tstate \<Rightarrow> nat \<Rightarrow> nat option \<Rightarrow> nat \<Rightarrow> tstate" where
  "ttimer_setfunc s ent handler a =
     s\<lparr>refs := (refs s)(ent := (refs s ent)\<lparr>scheduled := False, func := handler, arg := a\<rparr>)\<rparr>"

subsection \<open>Start and stop\<close>

definition set_remaining :: "tstate \<Rightarrow> nat \<Rightarrow> int \<Rightarrow> tstate" where
  "set_remaining s ent v = s\<lparr>refs := (refs s)(ent := (refs s ent)\<lparr>remaining := v\<rparr>)\<rparr>"

definition set_scheduled :: "tstate \<Rightarrow> nat \<Rightarrow> bool \<Rightarrow> tstate" where
  "set_scheduled s ent v = s\<lparr>refs := (refs s)(ent := (refs s ent)\<lparr>scheduled := v\<rparr>)\<rparr>"

definition set_hand :: "tstate \<Rightarrow> nat \<Rightarrow> nat \<Rightarrow> tstate" where
  "set_hand s level n = s\<lparr>wheel := (wheel s)[level := (wheel s ! level)\<lparr>hand := n\<rparr>]\<rparr>"

text \<open>\<^verbatim>\<open>LIST_INSERT_HEAD(&wheel->bucket[r], ent, entry)\<close> on \<^verbatim>\<open>timer->wheel[level]\<close>.\<close>

definition list_insert_head :: "tstate \<Rightarrow> nat \<Rightarrow> nat \<Rightarrow> nat \<Rightarrow> tstate" where
  "list_insert_head s level r ent =
     s\<lparr>wheel := (wheel s)[level :=
          (wheel s ! level)\<lparr>bucket := (bucket (wheel s ! level))
             (r := ent # bucket (wheel s ! level) r)\<rparr>]\<rparr>"

text \<open>
  \<^verbatim>\<open>LIST_REMOVE(ent, entry)\<close> unlinks the reference from the list that holds it, without
  naming that list: the reference disappears from every bucket.
\<close>

definition list_remove :: "tstate \<Rightarrow> nat \<Rightarrow> tstate" where
  "list_remove s ent =
     s\<lparr>wheel := map (\<lambda>w. w\<lparr>bucket := (\<lambda>i. remove1 ent (bucket w i))\<rparr>) (wheel s)\<rparr>"

text \<open>
  The \<^verbatim>\<open>next:\<close> loop of \<^verbatim>\<open>ttimer_start\<close>. The result is the state with
  \<^verbatim>\<open>ent->remaining\<close> accumulated, the level and the bucket \<open>r\<close> to insert into.
\<close>

function start_next :: "tstate \<Rightarrow> nat \<Rightarrow> nat \<Rightarrow> nat \<Rightarrow> int \<Rightarrow> error + (tstate \<times> nat \<times> nat)" where
  "start_next s ent level multiplier timeout =
     (if length (wheel s) \<le> level then Inl (Out_of_bounds level)
      else
        let h = hand (wheel s ! level);
            r = MOD_BY_BUCKETS (int h + timeout);
            timeout' = DIV_BY_BUCKETS (int h + timeout)
        in if timeout' > 0 then
             let s1 = set_remaining s ent (remaining (refs s ent) + int (r * multiplier));
                 multiplier' = multiplier * WHEEL_BUCKETS;
                 level' = level + 1
             in if level' < WHEEL_MAX_LEVELS
                then start_next s1 ent level' multiplier' timeout'
                else Inr (set_remaining s1 ent
                            (remaining (refs s1 ent) + int multiplier' * (timeout' - 1)),
                          level' - 1, r)
           else Inr (s, level, r))"
  by pat_completeness auto
termination
  by (relation "measure (\<lambda>(s, ent, level, multiplier, timeout). WHEEL_MAX_LEVELS - level)") auto

declare start_next.simps [simp del]

definition ttimer_start :: "tstate \<Rightarrow> nat \<Rightarrow> int \<Rightarrow> error + tstate" where
  "ttimer_start s ent timeout =
     (if \<not> timeout > 0 then Inl Assertion_failed
      else if scheduled (refs s ent) then Inl Assertion_failed
      else if func (refs s ent) = None then Inl Assertion_failed
      else case start_next (set_remaining s ent 0) ent 0 1 timeout of
             Inl e \<Rightarrow> Inl e
           | Inr (s1, level, r) \<Rightarrow>
               if length (wheel s1) \<le> level then Inl (Out_of_bounds level)
               else Inr (set_scheduled (list_insert_head s1 level r ent) ent True))"

definition ttimer_stop :: "tstate \<Rightarrow> nat \<Rightarrow> bool \<times> tstate" where
  "ttimer_stop s ent =
     (let stop = scheduled (refs s ent)
      in if stop then (stop, set_scheduled (list_remove s ent) ent False) else (stop, s))"

subsection \<open>Tick\<close>

definition invoke :: "tstate \<Rightarrow> nat \<Rightarrow> tstate" where
  "invoke s ent = s\<lparr>calls := calls s @ [(the (func (refs s ent)), ent, arg (refs s ent))]\<rparr>"

text \<open>
  The \<^verbatim>\<open>while ((ent = LIST_FIRST(&wheel->bucket[n])) != NULL)\<close> loop. Nothing in the
  code bounds it, so it is a partial function: \<open>None\<close> means that the loop never ends.
\<close>

partial_function (option) tick_drain :: "tstate \<Rightarrow> nat \<Rightarrow> nat \<Rightarrow> (error + tstate) option" where
  "tick_drain s level n =
     (if length (wheel s) \<le> level then Some (Inl (Out_of_bounds level))
      else case bucket (wheel s ! level) n of
        [] \<Rightarrow> Some (Inr s)
      | ent # rest \<Rightarrow>
          let rem = remaining (refs s ent)
          in if \<not> scheduled (refs s ent) then Some (Inl Assertion_failed)
             else
               let s1 = set_scheduled (list_remove s ent) ent False
               in if rem \<noteq> 0 then
                    (case ttimer_start s1 ent rem of
                       Inl e \<Rightarrow> Some (Inl e)
                     | Inr s2 \<Rightarrow> tick_drain s2 level n)
                  else if func (refs s1 ent) = None then Some (Inl Assertion_failed)
                  else tick_drain (invoke s1 ent) level n)"

text \<open>The \<^verbatim>\<open>next:\<close> loop of \<^verbatim>\<open>ttimer_tick\<close> over the levels.\<close>

partial_function (option) tick_next :: "tstate \<Rightarrow> nat \<Rightarrow> (error + tstate) option" where
  "tick_next s level =
     (if length (wheel s) \<le> level then Some (Inl (Out_of_bounds level))
      else
        let n = MOD_BY_BUCKETS (int (hand (wheel s ! level)) + 1)
        in Option.bind (tick_drain s level n) (\<lambda>res.
             case res of
               Inl e \<Rightarrow> Some (Inl e)
             | Inr s1 \<Rightarrow>
                 let s2 = set_hand s1 level n
                 in if n = 0 \<and> level + 1 < levels s2 then tick_next s2 (level + 1)
                    else Some (Inr s2)))"

declare tick_drain.simps [code]
declare tick_next.simps [code]

definition ttimer_tick :: "tstate \<Rightarrow> (error + tstate) option" where
  "ttimer_tick s = tick_next s 0"

subsection \<open>Catching up\<close>

partial_function (option) run_loop :: "tstate \<Rightarrow> int \<Rightarrow> (error + tstate) option" where
  "run_loop s now =
     (if lastrun s < now then
        Option.bind (ttimer_tick s) (\<lambda>res.
          case res of
            Inl e \<Rightarrow> Some (Inl e)
          | Inr s1 \<Rightarrow> run_loop (s1\<lparr>lastrun := lastrun s1 + 1\<rparr>) now)
      else Some (Inr s))"

declare run_loop.simps [code]

definition ttimer_run_ticks :: "tstate \<Rightarrow> int \<Rightarrow> (error + tstate) option" where
  "ttimer_run_ticks s now =
     Option.bind (run_loop s now) (\<lambda>res.
       case res of
         Inl e \<Rightarrow> Some (Inl e)
       | Inr s1 \<Rightarrow> Some (Inr (s1\<lparr>lastrun := now\<rparr>)))"

text \<open>Calling \<^verbatim>\<open>ttimer_tick\<close> \<open>k\<close> times in sequence, stopping at the first error.\<close>

fun ticks :: "nat \<Rightarrow> tstate \<Rightarrow> (error + tstate) option" where
  "ticks 0 s = Some (Inr s)"
| "ticks (Suc k) s =
     Option.bind (ttimer_tick s) (\<lambda>res.
       case res of Inl e \<Rightarrow> Some (Inl e) | Inr s1 \<Rightarrow> ticks k s1)"

subsection \<open>Callbacks that call into the wheel\<close>

text \<open>
  \<^verbatim>\<open>ttimer_tick\<close> calls \<^verbatim>\<open>ent->func(ent, ent->arg)\<close> inside the drain loop: the reference
  is unlinked and its flag cleared, the bucket is still being drained and
  \<^verbatim>\<open>wheel->hand\<close> still has its old value. What a callback does to the wheel is the
  sequence of the calls of \<^verbatim>\<open>ttimer_start\<close> and \<^verbatim>\<open>ttimer_stop\<close> it makes on it. The
  caller's program is the table \<open>cbs\<close>: for a function address, the reference and the
  argument it is called with, the calls it makes, in order.
\<close>

datatype action = Start nat int | Stop nat

type_synonym callbacks = "nat \<Rightarrow> nat \<Rightarrow> nat \<Rightarrow> action list"

fun run_actions :: "action list \<Rightarrow> tstate \<Rightarrow> error + tstate" where
  "run_actions [] s = Inr s"
| "run_actions (Start ent t # acts) s =
     (case ttimer_start s ent t of Inl e \<Rightarrow> Inl e | Inr s1 \<Rightarrow> run_actions acts s1)"
| "run_actions (Stop ent # acts) s = run_actions acts (snd (ttimer_stop s ent))"

definition invoke_cb :: "callbacks \<Rightarrow> tstate \<Rightarrow> nat \<Rightarrow> error + tstate" where
  "invoke_cb cbs s ent =
     run_actions (cbs (the (func (refs s ent))) ent (arg (refs s ent))) (invoke s ent)"

partial_function (option) tick_drain_cb ::
  "callbacks \<Rightarrow> tstate \<Rightarrow> nat \<Rightarrow> nat \<Rightarrow> (error + tstate) option" where
  "tick_drain_cb cbs s level n =
     (if length (wheel s) \<le> level then Some (Inl (Out_of_bounds level))
      else case bucket (wheel s ! level) n of
        [] \<Rightarrow> Some (Inr s)
      | ent # rest \<Rightarrow>
          let rem = remaining (refs s ent)
          in if \<not> scheduled (refs s ent) then Some (Inl Assertion_failed)
             else
               let s1 = set_scheduled (list_remove s ent) ent False
               in if rem \<noteq> 0 then
                    (case ttimer_start s1 ent rem of
                       Inl e \<Rightarrow> Some (Inl e)
                     | Inr s2 \<Rightarrow> tick_drain_cb cbs s2 level n)
                  else if func (refs s1 ent) = None then Some (Inl Assertion_failed)
                  else
                    (case invoke_cb cbs s1 ent of
                       Inl e \<Rightarrow> Some (Inl e)
                     | Inr s2 \<Rightarrow> tick_drain_cb cbs s2 level n))"

partial_function (option) tick_next_cb ::
  "callbacks \<Rightarrow> tstate \<Rightarrow> nat \<Rightarrow> (error + tstate) option" where
  "tick_next_cb cbs s level =
     (if length (wheel s) \<le> level then Some (Inl (Out_of_bounds level))
      else
        let n = MOD_BY_BUCKETS (int (hand (wheel s ! level)) + 1)
        in Option.bind (tick_drain_cb cbs s level n) (\<lambda>res.
             case res of
               Inl e \<Rightarrow> Some (Inl e)
             | Inr s1 \<Rightarrow>
                 let s2 = set_hand s1 level n
                 in if n = 0 \<and> level + 1 < levels s2 then tick_next_cb cbs s2 (level + 1)
                    else Some (Inr s2)))"

declare tick_drain_cb.simps [code]
declare tick_next_cb.simps [code]

definition ttimer_tick_cb :: "callbacks \<Rightarrow> tstate \<Rightarrow> (error + tstate) option" where
  "ttimer_tick_cb cbs s = tick_next_cb cbs s 0"

text \<open>
  Three programs: callbacks that make no call, callbacks that restart their own reference
  for the next tick (a periodic timer of period one), and callbacks that stop the
  reference next to their own.
\<close>

definition quiet :: callbacks where
  "quiet f ent a = []"



subsection \<open>Concrete states\<close>

text \<open>A reference as \<^verbatim>\<open>ttimer_setfunc\<close> leaves it: callback 1 with argument 0, idle.\<close>

definition idle_ref :: ttimer_ref where
  "idle_ref = \<lparr>remaining = 0, func = Some 1, arg = 0, scheduled = False\<rparr>"

text \<open>The wheel that \<^verbatim>\<open>ttimer_create(maxtimeout, now)\<close> returns, with idle references.\<close>

definition fresh_state :: "int \<Rightarrow> int \<Rightarrow> tstate" where
  "fresh_state maxtimeout now =
     with_refs (the (ttimer_create True maxtimeout now)) (\<lambda>a. idle_ref)"

text \<open>An empty wheel whose hands stand at the given positions, as after that many ticks.\<close>

definition hands_state :: "nat list \<Rightarrow> tstate" where
  "hands_state hs =
     \<lparr>levels = length hs, lastrun = 0,
      wheel = map (\<lambda>h. \<lparr>hand = h, bucket = (\<lambda>i. [])\<rparr>) hs,
      refs = (\<lambda>a. idle_ref), calls = []\<rparr>"


subsection \<open>Auxiliary notions for the proofs\<close>

text \<open>
  One iteration of the drain loop of \<^verbatim>\<open>ttimer_tick\<close> on the reference \<open>ent\<close> at the
  head of the bucket: unlink it, then restart it or invoke its callback.
\<close>

definition drain_step :: "tstate \<Rightarrow> nat \<Rightarrow> error + tstate" where
  "drain_step s ent =
     (if \<not> scheduled (refs s ent) then Inl Assertion_failed
      else if remaining (refs s ent) \<noteq> 0
        then ttimer_start (set_scheduled (list_remove s ent) ent False) ent (remaining (refs s ent))
      else if func (refs s ent) = None then Inl Assertion_failed
      else Inr (invoke (set_scheduled (list_remove s ent) ent False) ent))"

text \<open>What no step of a tick changes: level count, stored time, allocation, hands.\<close>

definition same_frame :: "tstate \<Rightarrow> tstate \<Rightarrow> bool" where
  "same_frame s s' \<longleftrightarrow>
     levels s' = levels s \<and> lastrun s' = lastrun s \<and> length (wheel s') = length (wheel s)
     \<and> (\<forall>l < length (wheel s). hand (wheel s' ! l) = hand (wheel s ! l))"

text \<open>
  The reference \<open>ent\<close> is linked into bucket \<open>i\<close> of level \<open>l\<close>; and the invariant of the
  lists: no bucket holds a reference twice, no reference is in two buckets, and the
  \<^verbatim>\<open>scheduled\<close> flag is set exactly on the linked references.
\<close>

definition linked :: "tstate \<Rightarrow> nat \<Rightarrow> nat \<Rightarrow> nat \<Rightarrow> bool" where
  "linked s ent l i \<longleftrightarrow>
     l < length (wheel s) \<and> i < WHEEL_BUCKETS \<and> ent \<in> set (bucket (wheel s ! l) i)"

definition links_ok :: "tstate \<Rightarrow> bool" where
  "links_ok s \<longleftrightarrow>
     (\<forall>l i. l < length (wheel s) \<longrightarrow> i < WHEEL_BUCKETS \<longrightarrow> distinct (bucket (wheel s ! l) i))
     \<and> (\<forall>ent l i l' i'. linked s ent l i \<longrightarrow> linked s ent l' i' \<longrightarrow> l = l' \<and> i = i')
     \<and> (\<forall>ent. scheduled (refs s ent) \<longleftrightarrow> (\<exists>l i. linked s ent l i))"

text \<open>A property of the state that an operation returns, when it returns one.\<close>

definition holds_on :: "(tstate \<Rightarrow> bool) \<Rightarrow> error + tstate \<Rightarrow> bool" where
  "holds_on Q res = (case res of Inl e \<Rightarrow> True | Inr s \<Rightarrow> Q s)"

text \<open>How many times the callback of \<open>ent\<close> has been invoked so far.\<close>

definition fired :: "tstate \<Rightarrow> nat \<Rightarrow> nat" where
  "fired s ent = length (filter (\<lambda>c. fst (snd c) = ent) (calls s))"

text \<open>The reference is in no bucket.\<close>

definition unlinked :: "tstate \<Rightarrow> nat \<Rightarrow> bool" where
  "unlinked s ent \<longleftrightarrow> (\<forall>l i. \<not> linked s ent l i)"

text \<open>
  The arithmetic of the \<^verbatim>\<open>next:\<close> loop of \<^verbatim>\<open>ttimer_start\<close> on the list of hands alone: the
  level, the bucket and the remaining time it computes, with \<open>acc\<close> the value of
  \<^verbatim>\<open>ent->remaining\<close> so far.
\<close>

function place :: "nat list \<Rightarrow> nat \<Rightarrow> nat \<Rightarrow> int \<Rightarrow> int \<Rightarrow> error + (nat \<times> nat \<times> int)" where
  "place hs level multiplier timeout acc =
     (if length hs \<le> level then Inl (Out_of_bounds level)
      else
        let r = MOD_BY_BUCKETS (int (hs ! level) + timeout);
            timeout' = DIV_BY_BUCKETS (int (hs ! level) + timeout)
        in if timeout' > 0 then
             if level + 1 < WHEEL_MAX_LEVELS
             then place hs (level + 1) (multiplier * WHEEL_BUCKETS) timeout'
                    (acc + int (r * multiplier))
             else Inr (level, r,
                    acc + int (r * multiplier) + int (multiplier * WHEEL_BUCKETS) * (timeout' - 1))
           else Inr (level, r, acc))"
  by pat_completeness auto
termination
  by (relation "measure (\<lambda>(hs, level, multiplier, timeout, acc). WHEEL_MAX_LEVELS - level)") auto

declare place.simps [simp del]

text \<open>Every hand is a bucket index.\<close>

definition hands_ok :: "tstate \<Rightarrow> bool" where
  "hands_ok s \<longleftrightarrow> (\<forall>l < length (wheel s). hand (wheel s ! l) < WHEEL_BUCKETS)"

text \<open>The measure that decreases with every iteration of the drain loop.\<close>

definition drain_load :: "tstate \<Rightarrow> nat \<Rightarrow> nat \<Rightarrow> nat" where
  "drain_load s level n =
     (\<Sum>a \<leftarrow> bucket (wheel s ! level) n. nat (remaining (refs s a)) + 1)"

text \<open>One tick on the hands of an empty wheel: the clock of base 256 advances by one.\<close>

fun bump :: "nat list \<Rightarrow> nat list" where
  "bump [] = []"
| "bump (h # hs) = (if Suc h mod 256 = 0 then 0 # bump hs else (Suc h mod 256) # hs)"

text \<open>
  A three-level wheel with nothing pending at levels 0 and 1, the time shown by the hands of
  these two levels, and the state with these two hands set to show a given time.
\<close>

definition low_idle :: "tstate \<Rightarrow> bool" where
  "low_idle s \<longleftrightarrow>
     length (wheel s) = 3 \<and> levels s = 3
     \<and> (\<forall>i. bucket (wheel s ! 0) i = []) \<and> (\<forall>i. bucket (wheel s ! 1) i = [])"

definition low_clock :: "tstate \<Rightarrow> nat" where
  "low_clock s = hand (wheel s ! 0) + 256 * hand (wheel s ! 1)"

definition set_low :: "tstate \<Rightarrow> nat \<Rightarrow> tstate" where
  "set_low s c = set_hand (set_hand s 0 (c mod 256)) 1 (c div 256)"

text \<open>
  The invariant of the states the interface produces, strong enough to show that a tick
  returns without tripping an assertion: besides the linkage invariant and the hands
  being bucket indices, the array of wheels has \<^verbatim>\<open>levels\<close> entries, between one and
  \<^verbatim>\<open>WHEEL_MAX_LEVELS\<close>, and every linked reference has a callback and a remaining time
  that is non-negative, zero on level 0 and below 256 on level 1. While the tick works on
  level \<^verbatim>\<open>k\<close> the hands of the levels below are zero (they have just wrapped).
\<close>

definition rem_fits :: "nat \<Rightarrow> int \<Rightarrow> bool" where
  "rem_fits l x \<longleftrightarrow> 0 \<le> x \<and> (l = 0 \<longrightarrow> x = 0) \<and> (l = 1 \<longrightarrow> x < 256)"

definition lower_zero :: "tstate \<Rightarrow> nat \<Rightarrow> bool" where
  "lower_zero s k \<longleftrightarrow> (\<forall>j < k. hand (wheel s ! j) = 0)"

definition wheel_inv :: "tstate \<Rightarrow> bool" where
  "wheel_inv s \<longleftrightarrow>
     links_ok s \<and> hands_ok s
     \<and> length (wheel s) = levels s \<and> 0 < levels s \<and> levels s \<le> WHEEL_MAX_LEVELS
     \<and> (\<forall>e l i. linked s e l i \<longrightarrow>
           func (refs s e) \<noteq> None \<and> rem_fits l (remaining (refs s e)))"

text \<open>
  One iteration of the drain loop of \<open>tick_drain_cb\<close>, and the programs none of whose
  callbacks calls \<^verbatim>\<open>ttimer_start\<close>.
\<close>

definition drain_step_cb :: "callbacks \<Rightarrow> tstate \<Rightarrow> nat \<Rightarrow> error + tstate" where
  "drain_step_cb cbs s ent =
     (if \<not> scheduled (refs s ent) then Inl Assertion_failed
      else if remaining (refs s ent) \<noteq> 0
        then ttimer_start (set_scheduled (list_remove s ent) ent False) ent (remaining (refs s ent))
      else if func (refs s ent) = None then Inl Assertion_failed
      else invoke_cb cbs (set_scheduled (list_remove s ent) ent False) ent)"

fun starts :: "action \<Rightarrow> bool" where
  "starts (Start ent t) = True"
| "starts (Stop ent) = False"

definition no_start :: "callbacks \<Rightarrow> bool" where
  "no_start cbs \<longleftrightarrow> (\<forall>f ent a. \<not> list_ex starts (cbs f ent a))"

section \<open>Basic facts about the operations\<close>

lemma frame_set_remaining [simp]:
  "levels (set_remaining s ent v) = levels s"
  "lastrun (set_remaining s ent v) = lastrun s"
  "calls (set_remaining s ent v) = calls s"
  "refs (set_remaining s ent v) a =
     (if a = ent then (refs s ent)\<lparr>remaining := v\<rparr> else refs s a)"
  by (simp_all add: set_remaining_def)

lemma frame_set_scheduled [simp]:
  "wheel (set_scheduled s ent v) = wheel s"
  "levels (set_scheduled s ent v) = levels s"
  "lastrun (set_scheduled s ent v) = lastrun s"
  "calls (set_scheduled s ent v) = calls s"
  "refs (set_scheduled s ent v) a =
     (if a = ent then (refs s ent)\<lparr>scheduled := v\<rparr> else refs s a)"
  by (simp_all add: set_scheduled_def)

lemma frame_set_hand [simp]:
  "length (wheel (set_hand s level n)) = length (wheel s)"
  "levels (set_hand s level n) = levels s"
  "lastrun (set_hand s level n) = lastrun s"
  "calls (set_hand s level n) = calls s"
  "refs (set_hand s level n) = refs s"
  by (simp_all add: set_hand_def)

lemma frame_list_insert_head [simp]:
  "length (wheel (list_insert_head s level r ent)) = length (wheel s)"
  "levels (list_insert_head s level r ent) = levels s"
  "lastrun (list_insert_head s level r ent) = lastrun s"
  "calls (list_insert_head s level r ent) = calls s"
  "refs (list_insert_head s level r ent) = refs s"
  by (simp_all add: list_insert_head_def)

lemma frame_list_remove [simp]:
  "length (wheel (list_remove s ent)) = length (wheel s)"
  "levels (list_remove s ent) = levels s"
  "lastrun (list_remove s ent) = lastrun s"
  "calls (list_remove s ent) = calls s"
  "refs (list_remove s ent) = refs s"
  by (simp_all add: list_remove_def)

lemma frame_invoke [simp]:
  "wheel (invoke s ent) = wheel s"
  "levels (invoke s ent) = levels s"
  "lastrun (invoke s ent) = lastrun s"
  "refs (invoke s ent) = refs s"
  "calls (invoke s ent) = calls s @ [(the (func (refs s ent)), ent, arg (refs s ent))]"
  by (simp_all add: invoke_def)

lemma hand_list_insert_head [simp]:
  "l < length (wheel s) \<Longrightarrow> hand (wheel (list_insert_head s level r ent) ! l) = hand (wheel s ! l)"
  by (cases "l = level") (simp_all add: list_insert_head_def)

lemma hand_list_remove [simp]:
  "l < length (wheel s) \<Longrightarrow> hand (wheel (list_remove s ent) ! l) = hand (wheel s ! l)"
  by (simp add: list_remove_def)

lemma hand_set_hand [simp]:
  "l < length (wheel s) \<Longrightarrow>
     hand (wheel (set_hand s level n) ! l) = (if l = level then n else hand (wheel s ! l))"
  by (cases "l = level") (simp_all add: set_hand_def)

lemma bucket_set_hand [simp]:
  "l < length (wheel s) \<Longrightarrow> bucket (wheel (set_hand s level n) ! l) = bucket (wheel s ! l)"
  by (cases "l = level") (simp_all add: set_hand_def)

lemma bucket_list_insert_head [simp]:
  "l < length (wheel s) \<Longrightarrow>
     bucket (wheel (list_insert_head s level r ent) ! l) i =
       (if l = level \<and> i = r then ent # bucket (wheel s ! l) i else bucket (wheel s ! l) i)"
  by (cases "l = level") (simp_all add: list_insert_head_def)

lemma bucket_list_remove [simp]:
  "l < length (wheel s) \<Longrightarrow>
     bucket (wheel (list_remove s ent) ! l) i = remove1 ent (bucket (wheel s ! l) i)"
  by (simp add: list_remove_def)

lemma set_remaining_twice [simp]:
  "set_remaining (set_remaining s ent a) ent b = set_remaining s ent b"
  by (simp add: set_remaining_def)

lemma wheel_set_remaining [simp]: "wheel (set_remaining s ent v) = wheel s"
  by (simp add: set_remaining_def)

lemma start_next_Inr:
  "start_next s ent level m t = Inr (s', lvl, r) \<Longrightarrow>
     (\<exists>v. s' = set_remaining s ent v) \<and> lvl < length (wheel s) \<and> r < 256"
proof (induction s ent level m t rule: start_next.induct)
  case (1 s ent level multiplier timeout)
  note step = "1.prems"[unfolded start_next.simps[of s ent level multiplier timeout]]
  show ?case
  proof (cases "length (wheel s) \<le> level")
    case True
    with step show ?thesis by simp
  next
    case inb: False
    let ?h = "hand (wheel s ! level)"
    let ?r = "MOD_BY_BUCKETS (int ?h + timeout)"
    let ?q = "DIV_BY_BUCKETS (int ?h + timeout)"
    let ?s1 = "set_remaining s ent (remaining (refs s ent) + int (?r * multiplier))"
    have r: "?r < 256" by (simp add: MOD_BY_BUCKETS_def)
    show ?thesis
    proof (cases "0 < ?q")
      case False
      with step inb r show ?thesis
        by (auto simp: Let_def set_remaining_def intro!: exI[of _ "remaining (refs s ent)"])
    next
      case q: True
      show ?thesis
      proof (cases "level + 1 < WHEEL_MAX_LEVELS")
        case True
        with step inb q have "start_next ?s1 ent (level + 1) (multiplier * WHEEL_BUCKETS) ?q = Inr (s', lvl, r)"
          by (simp add: Let_def)
        from "1.IH"[OF inb refl refl refl q refl refl refl True this]
        show ?thesis by auto
      next
        case False
        with step inb q r show ?thesis
          by (auto simp: Let_def)
      qed
    qed
  qed
qed

lemma ttimer_start_Inr:
  assumes "ttimer_start s ent t = Inr s'"
  shows "\<exists>v lvl r. lvl < length (wheel s) \<and> r < 256
           \<and> s' = set_scheduled (list_insert_head (set_remaining s ent v) lvl r ent) ent True"
    and "0 < t" and "\<not> scheduled (refs s ent)" and "func (refs s ent) \<noteq> None"
proof -
  from assms show "0 < t" "\<not> scheduled (refs s ent)" "func (refs s ent) \<noteq> None"
    by (auto simp: ttimer_start_def split: if_splits)
  with assms obtain s1 lvl r where
    sn: "start_next (set_remaining s ent 0) ent 0 1 t = Inr (s1, lvl, r)"
    and s': "s' = set_scheduled (list_insert_head s1 lvl r ent) ent True"
    by (auto simp: ttimer_start_def split: if_splits sum.splits)
  from start_next_Inr[OF sn] s'
  show "\<exists>v lvl r. lvl < length (wheel s) \<and> r < 256
           \<and> s' = set_scheduled (list_insert_head (set_remaining s ent v) lvl r ent) ent True"
    by auto
qed

lemma tick_drain_unfold:
  "tick_drain s level n =
     (if length (wheel s) \<le> level then Some (Inl (Out_of_bounds level))
      else case bucket (wheel s ! level) n of
        [] \<Rightarrow> Some (Inr s)
      | ent # rest \<Rightarrow>
          (case drain_step s ent of
             Inl e \<Rightarrow> Some (Inl e)
           | Inr s' \<Rightarrow> tick_drain s' level n))"
proof (cases "length (wheel s) \<le> level")
  case True
  then show ?thesis by (subst tick_drain.simps) simp
next
  case inb: False
  show ?thesis
  proof (cases "bucket (wheel s ! level) n")
    case Nil
    with inb show ?thesis by (subst tick_drain.simps) simp
  next
    case (Cons ent rest)
    show ?thesis
    proof (cases "scheduled (refs s ent)")
      case False
      with inb Cons show ?thesis
        by (subst tick_drain.simps) (simp add: drain_step_def)
    next
      case sch: True
      show ?thesis
      proof (cases "remaining (refs s ent) = 0")
        case True
        with inb Cons sch show ?thesis
          by (subst tick_drain.simps) (simp add: drain_step_def Let_def)
      next
        case False
        with inb Cons sch show ?thesis
          by (subst tick_drain.simps) (simp add: drain_step_def Let_def)
      qed
    qed
  qed
qed
lemma tick_drain_induct [consumes 1, case_names Out_of_bounds Empty Error Step]:
  assumes run: "tick_drain s level n = Some res"
    and oob: "\<And>s. length (wheel s) \<le> level \<Longrightarrow> P s (Inl (Out_of_bounds level))"
    and emp: "\<And>s. level < length (wheel s) \<Longrightarrow> bucket (wheel s ! level) n = [] \<Longrightarrow> P s (Inr s)"
    and err: "\<And>s ent rest e. level < length (wheel s) \<Longrightarrow> bucket (wheel s ! level) n = ent # rest
                \<Longrightarrow> drain_step s ent = Inl e \<Longrightarrow> P s (Inl e)"
    and step: "\<And>s ent rest s' res. level < length (wheel s) \<Longrightarrow> bucket (wheel s ! level) n = ent # rest
                \<Longrightarrow> drain_step s ent = Inr s' \<Longrightarrow> P s' res \<Longrightarrow> P s res"
  shows "P s res"
proof -
  have "l = level \<longrightarrow> m = n \<longrightarrow> P s res" if "tick_drain s l m = Some res" for l m
  proof (rule tick_drain.raw_induct[where P="\<lambda>s l m res. l = level \<longrightarrow> m = n \<longrightarrow> P s res", OF _ that],
      goal_cases)
    case (1 f s l m res)
    note IH = "1"(1) and hyp = "1"(2)
    show ?case
    proof (intro impI)
      assume lm: "l = level" "m = n"
      have body: "(if length (wheel s) \<le> level then Some (Inl (Out_of_bounds level))
        else case bucket (wheel s ! level) n of
          [] \<Rightarrow> Some (Inr s)
        | ent # rest \<Rightarrow>
            (case drain_step s ent of
               Inl e \<Rightarrow> Some (Inl e)
             | Inr s' \<Rightarrow> f s' level n)) = Some res"
        using hyp unfolding lm
        by (auto simp: drain_step_def Let_def split: if_splits list.splits)
      show "P s res"
      proof (cases "length (wheel s) \<le> level")
        case True
        with body oob show ?thesis by auto
      next
        case inb: False
        show ?thesis
        proof (cases "bucket (wheel s ! level) n")
          case Nil
          with body inb emp[of s] show ?thesis by auto
        next
          case (Cons ent rest)
          show ?thesis
          proof (cases "drain_step s ent")
            case (Inl e)
            with body inb Cons err[of s ent rest e] show ?thesis by auto
          next
            case (Inr s')
            with body inb Cons have "f s' level n = Some res" by simp
            from IH[OF this] have "P s' res" by simp
            with inb Cons Inr step[of s ent rest s' res] show ?thesis by auto
          qed
        qed
      qed
    qed
  qed
  with run show ?thesis by blast
qed
lemma MOD_BY_BUCKETS_Suc: "MOD_BY_BUCKETS (int h + 1) = Suc h mod 256"
  by (simp add: MOD_BY_BUCKETS_def nat_mod_distrib nat_add_distrib)

lemma tick_next_unfold:
  "tick_next s level =
     (if length (wheel s) \<le> level then Some (Inl (Out_of_bounds level))
      else case tick_drain s level (Suc (hand (wheel s ! level)) mod 256) of
        None \<Rightarrow> None
      | Some (Inl e) \<Rightarrow> Some (Inl e)
      | Some (Inr s1) \<Rightarrow>
          if Suc (hand (wheel s ! level)) mod 256 = 0 \<and> level + 1 < levels s1
          then tick_next (set_hand s1 level 0) (level + 1)
          else Some (Inr (set_hand s1 level (Suc (hand (wheel s ! level)) mod 256))))"
  by (subst tick_next.simps)
     (simp add: MOD_BY_BUCKETS_Suc Let_def split: option.split sum.split)

lemma tick_next_induct [consumes 1, case_names Out_of_bounds Error Last Next]:
  assumes run: "tick_next s level = Some res"
    and oob: "\<And>s level. length (wheel s) \<le> level \<Longrightarrow> P s level (Inl (Out_of_bounds level))"
    and err: "\<And>s level e. level < length (wheel s) \<Longrightarrow>
                tick_drain s level (Suc (hand (wheel s ! level)) mod 256) = Some (Inl e) \<Longrightarrow>
                P s level (Inl e)"
    and last: "\<And>s level s1. level < length (wheel s) \<Longrightarrow>
                tick_drain s level (Suc (hand (wheel s ! level)) mod 256) = Some (Inr s1) \<Longrightarrow>
                \<not> (Suc (hand (wheel s ! level)) mod 256 = 0 \<and> level + 1 < levels s1) \<Longrightarrow>
                P s level (Inr (set_hand s1 level (Suc (hand (wheel s ! level)) mod 256)))"
    and nxt: "\<And>s level s1 res. level < length (wheel s) \<Longrightarrow>
                tick_drain s level 0 = Some (Inr s1) \<Longrightarrow>
                Suc (hand (wheel s ! level)) mod 256 = 0 \<Longrightarrow> level + 1 < levels s1 \<Longrightarrow>
                P (set_hand s1 level 0) (level + 1) res \<Longrightarrow> P s level res"
  shows "P s level res"
proof (rule tick_next.raw_induct[where P=P, OF _ run], goal_cases)
  case (1 f s level res)
  note IH = "1"(1) and hyp = "1"(2)
  let ?n = "Suc (hand (wheel s ! level)) mod 256"
  show ?case
  proof (cases "length (wheel s) \<le> level")
    case True
    with hyp oob show ?thesis by auto
  next
    case inb: False
    with hyp obtain r where d: "tick_drain s level ?n = Some r"
      by (auto simp: MOD_BY_BUCKETS_Suc Let_def split: Option.bind_splits)
    show ?thesis
    proof (cases r)
      case (Inl e)
      with hyp inb d err[of level s e] show ?thesis
        by (auto simp: MOD_BY_BUCKETS_Suc Let_def)
    next
      case (Inr s1)
      show ?thesis
      proof (cases "?n = 0 \<and> level + 1 < levels s1")
        case False
        with hyp inb d Inr last[of level s s1] show ?thesis
          by (auto simp: MOD_BY_BUCKETS_Suc Let_def)
      next
        case True
        with hyp inb d Inr have "f (set_hand s1 level 0) (level + 1) = Some res"
          by (auto simp: MOD_BY_BUCKETS_Suc Let_def)
        from IH[OF this] True inb d Inr nxt[of level s s1 res] show ?thesis
          by auto
      qed
    qed
  qed
qed
lemma lastrun_commute:
  "set_remaining (s\<lparr>lastrun := x\<rparr>) ent v = (set_remaining s ent v)\<lparr>lastrun := x\<rparr>"
  "set_scheduled (s\<lparr>lastrun := x\<rparr>) ent b = (set_scheduled s ent b)\<lparr>lastrun := x\<rparr>"
  "set_hand (s\<lparr>lastrun := x\<rparr>) level n = (set_hand s level n)\<lparr>lastrun := x\<rparr>"
  "list_insert_head (s\<lparr>lastrun := x\<rparr>) level r ent = (list_insert_head s level r ent)\<lparr>lastrun := x\<rparr>"
  "list_remove (s\<lparr>lastrun := x\<rparr>) ent = (list_remove s ent)\<lparr>lastrun := x\<rparr>"
  "invoke (s\<lparr>lastrun := x\<rparr>) ent = (invoke s ent)\<lparr>lastrun := x\<rparr>"
  by (simp_all add: set_remaining_def set_scheduled_def set_hand_def list_insert_head_def
      list_remove_def invoke_def)

lemma start_next_lastrun:
  "start_next (s\<lparr>lastrun := x\<rparr>) ent level m t =
     map_sum (\<lambda>e. e) (\<lambda>(s', l, r). (s'\<lparr>lastrun := x\<rparr>, l, r)) (start_next s ent level m t)"
proof (induction s ent level m t rule: start_next.induct)
  case (1 s ent level multiplier timeout)
  show ?case
  proof (cases "\<not> length (wheel s) \<le> level \<and> 0 < DIV_BY_BUCKETS (int (hand (wheel s ! level)) + timeout)
                \<and> level + 1 < WHEEL_MAX_LEVELS")
    case True
    then show ?thesis
      using "1.IH"[OF _ refl refl refl _ refl refl refl]
      by (simp add: start_next.simps[of s] start_next.simps[of "s\<lparr>lastrun := x\<rparr>"]
          Let_def lastrun_commute)
  next
    case False
    then show ?thesis
      by (auto simp: start_next.simps[of s] start_next.simps[of "s\<lparr>lastrun := x\<rparr>"]
          Let_def lastrun_commute)
  qed
qed

lemma ttimer_start_lastrun:
  "ttimer_start (s\<lparr>lastrun := x\<rparr>) ent t =
     map_sum (\<lambda>e. e) (\<lambda>s'. s'\<lparr>lastrun := x\<rparr>) (ttimer_start s ent t)"
  by (cases "start_next (set_remaining s ent 0) ent 0 1 t")
     (auto simp: ttimer_start_def start_next_lastrun lastrun_commute)

lemma drain_step_lastrun:
  "drain_step (s\<lparr>lastrun := x\<rparr>) ent =
     map_sum (\<lambda>e. e) (\<lambda>s'. s'\<lparr>lastrun := x\<rparr>) (drain_step s ent)"
  by (simp add: drain_step_def ttimer_start_lastrun lastrun_commute)
lemma lastrun_restore: "s\<lparr>lastrun := x\<rparr>\<lparr>lastrun := lastrun s\<rparr> = (s::tstate)"
  by simp

lemma tick_drain_lastrun_Some:
  assumes "tick_drain s level n = Some res"
  shows "tick_drain (s\<lparr>lastrun := x\<rparr>) level n = Some (map_sum (\<lambda>e. e) (\<lambda>s'. s'\<lparr>lastrun := x\<rparr>) res)"
  using assms
proof (induction rule: tick_drain_induct)
  case (Out_of_bounds s)
  then show ?case by (subst tick_drain_unfold) simp
next
  case (Empty s)
  then show ?case by (subst tick_drain_unfold) simp
next
  case (Error s ent rest e)
  then show ?case by (subst tick_drain_unfold) (simp add: drain_step_lastrun)
next
  case (Step s ent rest s' res)
  then show ?case by (subst tick_drain_unfold) (simp add: drain_step_lastrun)
qed

lemma tick_drain_lastrun:
  "tick_drain (s\<lparr>lastrun := x\<rparr>) level n =
     map_option (map_sum (\<lambda>e. e) (\<lambda>s'. s'\<lparr>lastrun := x\<rparr>)) (tick_drain s level n)"
proof (cases "tick_drain s level n")
  case (Some res)
  then show ?thesis by (simp add: tick_drain_lastrun_Some)
next
  case None
  have "tick_drain (s\<lparr>lastrun := x\<rparr>) level n = None"
  proof (rule ccontr)
    assume "tick_drain (s\<lparr>lastrun := x\<rparr>) level n \<noteq> None"
    then obtain r where "tick_drain (s\<lparr>lastrun := x\<rparr>) level n = Some r" by auto
    from tick_drain_lastrun_Some[OF this, of "lastrun s"] None show False
      by (simp only: lastrun_restore) simp
  qed
  with None show ?thesis by simp
qed

lemma tick_next_lastrun_Some:
  assumes "tick_next s level = Some res"
  shows "tick_next (s\<lparr>lastrun := x\<rparr>) level = Some (map_sum (\<lambda>e. e) (\<lambda>s'. s'\<lparr>lastrun := x\<rparr>) res)"
  using assms
proof (induction rule: tick_next_induct)
  case (Out_of_bounds s level)
  then show ?case by (subst tick_next_unfold) simp
next
  case (Error s level e)
  then show ?case by (subst tick_next_unfold) (simp add: tick_drain_lastrun)
next
  case (Last s level s1)
  then show ?case by (subst tick_next_unfold) (auto simp: tick_drain_lastrun lastrun_commute)
next
  case (Next s level s1 res)
  then show ?case by (subst tick_next_unfold) (simp add: tick_drain_lastrun lastrun_commute)
qed

lemma ttimer_tick_lastrun:
  "ttimer_tick (s\<lparr>lastrun := x\<rparr>) =
     map_option (map_sum (\<lambda>e. e) (\<lambda>s'. s'\<lparr>lastrun := x\<rparr>)) (ttimer_tick s)"
proof (cases "ttimer_tick s")
  case (Some res)
  then show ?thesis by (simp add: ttimer_tick_def tick_next_lastrun_Some)
next
  case None
  have "ttimer_tick (s\<lparr>lastrun := x\<rparr>) = None"
  proof (rule ccontr)
    assume "ttimer_tick (s\<lparr>lastrun := x\<rparr>) \<noteq> None"
    then obtain r where "tick_next (s\<lparr>lastrun := x\<rparr>) 0 = Some r"
      by (auto simp: ttimer_tick_def)
    from tick_next_lastrun_Some[OF this, of "lastrun s"] None show False
      by (simp only: lastrun_restore ttimer_tick_def) simp
  qed
  with None show ?thesis by simp
qed

lemma ticks_lastrun:
  "ticks k (s\<lparr>lastrun := x\<rparr>) =
     map_option (map_sum (\<lambda>e. e) (\<lambda>s'. s'\<lparr>lastrun := x\<rparr>)) (ticks k s)"
proof (induction k arbitrary: s)
  case 0
  show ?case by simp
next
  case (Suc k)
  show ?case
  proof (cases "ttimer_tick s")
    case None
    then show ?thesis by (simp add: ttimer_tick_lastrun)
  next
    case (Some r)
    then show ?thesis
      by (cases r) (simp_all add: ttimer_tick_lastrun Suc.IH)
  qed
qed
lemma ttimer_start_frame:
  assumes "ttimer_start s ent t = Inr s'"
  shows "levels s' = levels s" "lastrun s' = lastrun s" "calls s' = calls s"
    "length (wheel s') = length (wheel s)"
    "l < length (wheel s) \<Longrightarrow> hand (wheel s' ! l) = hand (wheel s ! l)"
  using ttimer_start_Inr(1)[OF assms] by auto

lemma drain_step_frame:
  assumes "drain_step s ent = Inr s'"
  shows "levels s' = levels s" "lastrun s' = lastrun s"
    "length (wheel s') = length (wheel s)"
    "l < length (wheel s) \<Longrightarrow> hand (wheel s' ! l) = hand (wheel s ! l)"
  using assms
  by (auto simp: drain_step_def split: if_splits dest!: ttimer_start_Inr(1))

lemma same_frame_refl [simp]: "same_frame s s"
  by (simp add: same_frame_def)

lemma same_frame_trans: "same_frame s s1 \<Longrightarrow> same_frame s1 s2 \<Longrightarrow> same_frame s s2"
  by (simp add: same_frame_def)

lemma drain_step_same_frame: "drain_step s ent = Inr s' \<Longrightarrow> same_frame s s'"
  using drain_step_frame[of s ent s'] by (simp add: same_frame_def)

lemma tick_drain_same_frame:
  assumes "tick_drain s level n = Some res"
  shows "\<forall>s'. res = Inr s' \<longrightarrow> same_frame s s'"
  using assms
proof (induction rule: tick_drain_induct)
  case (Step s ent rest s1 res)
  from drain_step_same_frame[OF Step(3)] Step(4) show ?case
    by (blast intro: same_frame_trans)
qed simp_all

lemma tick_drain_frame:
  assumes "tick_drain s level n = Some (Inr s')"
  shows "levels s' = levels s" "lastrun s' = lastrun s" "length (wheel s') = length (wheel s)"
    "l < length (wheel s) \<Longrightarrow> hand (wheel s' ! l) = hand (wheel s ! l)"
  using tick_drain_same_frame[OF assms] by (simp_all add: same_frame_def)
lemma set_hand_levels_frame:
  "levels (set_hand s level n) = levels s \<and> lastrun (set_hand s level n) = lastrun s
   \<and> length (wheel (set_hand s level n)) = length (wheel s)"
  by simp

lemma tick_next_frame_gen:
  assumes "tick_next s level = Some res"
  shows "\<forall>s'. res = Inr s' \<longrightarrow>
           levels s' = levels s \<and> lastrun s' = lastrun s \<and> length (wheel s') = length (wheel s)"
  using assms
proof (induction s level res rule: tick_next_induct)
  case (Last s level s1)
  from tick_drain_frame(1-3)[OF Last(2)] show ?case by simp
next
  case (Next s level s1 res)
  show ?case
  proof (intro allI impI)
    fix s' assume "res = Inr s'"
    with Next(5) have "levels s' = levels (set_hand s1 level 0)"
      "lastrun s' = lastrun (set_hand s1 level 0)"
      "length (wheel s') = length (wheel (set_hand s1 level 0))"
      by blast+
    with tick_drain_frame(1-3)[OF Next(2)]
    show "levels s' = levels s \<and> lastrun s' = lastrun s \<and> length (wheel s') = length (wheel s)"
      by simp
  qed
qed simp_all

lemma tick_next_frame:
  assumes "tick_next s level = Some (Inr s')"
  shows "levels s' = levels s" "lastrun s' = lastrun s" "length (wheel s') = length (wheel s)"
  using tick_next_frame_gen[OF assms] by simp_all

section \<open>Evaluation\<close>

lemma ticks_numeral:
  "ticks (numeral k) s =
     Option.bind (ttimer_tick s) (\<lambda>res.
       case res of Inl e \<Rightarrow> Some (Inl e) | Inr s1 \<Rightarrow> ticks (pred_numeral k) s1)"
  by (simp add: numeral_eq_Suc)

lemmas model_defs = idle_ref_def fresh_state_def hands_state_def with_refs_def ttimer_create_def
  create_levels_def ttimer_start_def ttimer_stop_def ttimer_setfunc_def
  set_remaining_def set_scheduled_def set_hand_def list_insert_head_def list_remove_def invoke_def
  WHEEL_MAX_LEVELS_def WHEEL_BUCKETS_def MOD_BY_BUCKETS_def DIV_BY_BUCKETS_def empty_wheel_def
  Let_def ttimer_tick_def start_next.simps tick_next.simps tick_drain.simps

lemmas eval_defs = model_defs ticks_numeral

section \<open>Ticking an empty wheel\<close>

text \<open>
  On a wheel without pending references a tick only moves the hands. The hand positions
  used in the sections below are therefore those of a freshly created wheel after the
  stated number of ticks.
\<close>

lemma hands_state_simps [simp]:
  "levels (hands_state hs) = length hs"
  "length (wheel (hands_state hs)) = length hs"
  "l < length hs \<Longrightarrow> hand (wheel (hands_state hs) ! l) = hs ! l"
  "l < length hs \<Longrightarrow> bucket (wheel (hands_state hs) ! l) i = []"
  by (simp_all add: hands_state_def)

lemma set_hand_hands_state:
  "l < length hs \<Longrightarrow> set_hand (hands_state hs) l n = hands_state (hs[l := n])"
  by (simp add: hands_state_def set_hand_def map_update)

lemma tick_drain_hands_state:
  "l < length hs \<Longrightarrow> tick_drain (hands_state hs) l n = Some (Inr (hands_state hs))"
  by (subst tick_drain_unfold) simp

lemma tick_next_hands_state:
  "tick_next (hands_state (zs @ h # hs)) (length zs) = Some (Inr (hands_state (zs @ bump (h # hs))))"
proof (induction hs arbitrary: zs h)
  case Nil
  show ?case
    by (subst tick_next_unfold)
       (simp add: tick_drain_hands_state set_hand_hands_state nth_append)
next
  case (Cons h' hs)
  show ?case
  proof (cases "Suc h mod 256 = 0")
    case False
    then show ?thesis
      by (subst tick_next_unfold)
         (simp add: tick_drain_hands_state set_hand_hands_state nth_append)
  next
    case True
    have "tick_next (hands_state ((zs @ [0]) @ h' # hs)) (length (zs @ [0]))
            = Some (Inr (hands_state ((zs @ [0]) @ bump (h' # hs))))"
      by (rule Cons.IH)
    with True show ?thesis
      by (subst tick_next_unfold)
         (simp add: tick_drain_hands_state set_hand_hands_state nth_append)
  qed
qed

lemma ttimer_tick_hands_state:
  "hs \<noteq> [] \<Longrightarrow> ttimer_tick (hands_state hs) = Some (Inr (hands_state (bump hs)))"
  using tick_next_hands_state[of "[]" "hd hs" "tl hs"] by (simp add: ttimer_tick_def)

lemma bump_nonempty [simp]: "bump hs = [] \<longleftrightarrow> hs = []"
  by (cases hs) simp_all

lemma ticks_hands_state:
  "hs \<noteq> [] \<Longrightarrow> ticks k (hands_state hs) = Some (Inr (hands_state ((bump ^^ k) hs)))"
proof (induction k arbitrary: hs)
  case 0
  show ?case by simp
next
  case (Suc k)
  then show ?case
    by (simp add: ttimer_tick_hands_state funpow_swap1)
qed

lemma bump_less: "h + k < 256 \<Longrightarrow> (bump ^^ k) (h # hs) = (h + k) # hs"
proof (induction k arbitrary: h)
  case 0
  show ?case by simp
next
  case (Suc k)
  then have "(bump ^^ k) (Suc h # hs) = (Suc h + k) # hs" by simp
  with Suc.prems show ?case by (simp add: funpow_swap1)
qed

lemma bump_round: "(bump ^^ 256) (0 # hs) = 0 # bump hs"
proof -
  have "(bump ^^ 255) (0 # hs) = 255 # hs"
    using bump_less[of 0 255 hs] by simp
  moreover have "(bump ^^ Suc 255) (0 # hs) = bump ((bump ^^ 255) (0 # hs))"
    by (simp only: funpow.simps o_apply)
  moreover have "Suc 255 = (256::nat)" by simp
  ultimately show ?thesis by (simp del: funpow.simps)
qed

lemma bump_rounds: "(bump ^^ (256 * j)) (0 # hs) = 0 # (bump ^^ j) hs"
proof (induction j arbitrary: hs)
  case 0
  show ?case by simp
next
  case (Suc j)
  have "256 * Suc j = 256 * j + 256" by simp
  then have "(bump ^^ (256 * Suc j)) (0 # hs) = (bump ^^ (256 * j)) ((bump ^^ 256) (0 # hs))"
    by (simp only: funpow_add o_apply)
  also have "\<dots> = 0 # (bump ^^ j) (bump hs)"
    by (simp only: bump_round Suc.IH)
  finally show ?case by (simp add: funpow_swap1)
qed
lemma bump_clock:
  assumes "a < 256" and "b < 256"
  shows "(bump ^^ (a + 256 * b)) (0 # 0 # hs) = a # b # hs"
proof -
  have "(bump ^^ (a + 256 * b)) (0 # 0 # hs) = (bump ^^ a) ((bump ^^ (256 * b)) (0 # 0 # hs))"
    by (simp only: funpow_add o_apply)
  also have "\<dots> = (bump ^^ a) (0 # (bump ^^ b) (0 # hs))"
    by (simp only: bump_rounds)
  also have "\<dots> = (bump ^^ a) (0 # b # hs)"
    using bump_less[of 0 b hs] assms(2) by simp
  also have "\<dots> = a # b # hs"
    using bump_less[of 0 a "b # hs"] assms(1) by simp
  finally show ?thesis .
qed

lemma fresh_state_three_levels: "fresh_state (256 ^ 4) 0 = hands_state [0, 0, 0]"
  by (simp add: fresh_state_def hands_state_def with_refs_def ttimer_create_def create_levels_def
      empty_wheel_def WHEEL_MAX_LEVELS_def DIV_BY_BUCKETS_def Let_def numeral_3_eq_3)

lemma ticks_fresh_three_levels:
  assumes "a < 256" and "b < 256"
  shows "ticks (a + 256 * b) (fresh_state (256 ^ 4) 0) = Some (Inr (hands_state [a, b, 0]))"
  by (simp only: fresh_state_three_levels ticks_hands_state[OF list.distinct(2)]
      bump_clock[OF assms])

lemma ticks_65517: "ticks 65517 (fresh_state (256 ^ 4) 0) = Some (Inr (hands_state [237, 255, 0]))"
  using ticks_fresh_three_levels[of 237 255] by simp

lemma ticks_65535: "ticks 65535 (fresh_state (256 ^ 4) 0) = Some (Inr (hands_state [255, 255, 0]))"
  using ticks_fresh_three_levels[of 255 255] by simp

lemma fresh_state_two_levels: "fresh_state 512 0 = hands_state [0, 0]"
  by (simp add: fresh_state_def hands_state_def with_refs_def ttimer_create_def create_levels_def
      empty_wheel_def WHEEL_MAX_LEVELS_def DIV_BY_BUCKETS_def Let_def numeral_2_eq_2)

lemma ticks_two_levels_65535:
  "ticks 65535 (fresh_state 512 0) = Some (Inr (hands_state [255, 255]))"
proof -
  have "(bump ^^ (255 + 256 * 255)) [0, 0] = [255, 255]"
    by (rule bump_clock) simp_all
  then have "ticks (255 + 256 * 255) (fresh_state 512 0) = Some (Inr (hands_state [255, 255]))"
    by (simp only: fresh_state_two_levels ticks_hands_state[OF list.distinct(2)])
  then show ?thesis by simp
qed

subsection \<open>Ticks that meet no pending reference\<close>

text \<open>
  While levels 0 and 1 hold no reference and level 1 does not wrap, ticks only move the
  hands of these two levels; 65535 such ticks can be taken in one step.
\<close>

lemma set_hand_same: "l < length (wheel s) \<Longrightarrow> set_hand s l (hand (wheel s ! l)) = s"
  by (simp add: set_hand_def)

lemma set_low_props:
  assumes "low_idle s"
  shows "low_idle (set_low s c)"
    and "hand (wheel (set_low s c) ! 0) = c mod 256"
    and "hand (wheel (set_low s c) ! 1) = c div 256"
    and "set_low (set_low s c) c' = set_low s c'"
  using assms
  by (simp_all add: low_idle_def set_low_def set_hand_def list_update_swap[of 0 "Suc 0"])

lemma tick_low:
  assumes idle: "low_idle s"
    and h0: "hand (wheel s ! 0) < 256" and c: "low_clock s + 1 < 65536"
  shows "ttimer_tick s = Some (Inr (set_low s (low_clock s + 1)))"
proof -
  let ?h0 = "hand (wheel s ! 0)" and ?h1 = "hand (wheel s ! 1)"
  from idle have len: "length (wheel s) = 3" and lev: "levels s = 3"
    and b0: "\<And>i. bucket (wheel s ! 0) i = []" and b1: "\<And>i. bucket (wheel s ! 1) i = []"
    by (simp_all add: low_idle_def)
  have d0: "tick_drain s 0 n = Some (Inr s)" for n
    using len b0 by (subst tick_drain_unfold) simp
  show ?thesis
  proof (cases "Suc ?h0 mod 256 = 0")
    case False
    then have "Suc ?h0 \<noteq> 256" by auto
    with h0 have n: "Suc ?h0 mod 256 = Suc ?h0" by simp
    from n h0 have lt: "Suc ?h0 < 256" by (metis mod_less_divisor zero_less_numeral)
    have "low_clock s + 1 = Suc ?h0 + 256 * ?h1" by (simp add: low_clock_def)
    with lt have "(low_clock s + 1) mod 256 = Suc ?h0" "(low_clock s + 1) div 256 = ?h1"
      by simp_all
    then have "set_low s (low_clock s + 1) =
        set_hand (set_hand s 0 (Suc ?h0)) 1 (hand (wheel (set_hand s 0 (Suc ?h0)) ! 1))"
      using len by (simp add: set_low_def)
    then have "set_low s (low_clock s + 1) = set_hand s 0 (Suc ?h0)"
      using len by (simp only: set_hand_same frame_set_hand)
    moreover have "ttimer_tick s = Some (Inr (set_hand s 0 (Suc ?h0)))"
      unfolding ttimer_tick_def using len n d0
      by (subst tick_next_unfold) simp
    ultimately show ?thesis by simp
  next
    case True
    have "\<not> Suc ?h0 < 256"
    proof
      assume "Suc ?h0 < 256"
      then have "Suc ?h0 mod 256 = Suc ?h0" by (rule mod_less)
      with True show False by (simp only:)
    qed
    with h0 have h255: "?h0 = 255" by simp
    with c have h1: "?h1 < 255" by (simp add: low_clock_def)
    let ?s1 = "set_hand s 0 0"
    have d1: "tick_drain ?s1 1 n = Some (Inr ?s1)" for n
      using len b1 by (subst tick_drain_unfold) simp
    have n1: "Suc (hand (wheel ?s1 ! 1)) mod 256 = Suc ?h1"
      using len h1 by simp
    have t1: "tick_next ?s1 1 = Some (Inr (set_hand ?s1 1 (Suc ?h1)))"
      using len d1 n1 by (subst tick_next_unfold) simp
    have "ttimer_tick s = Some (Inr (set_hand ?s1 1 (Suc ?h1)))"
      unfolding ttimer_tick_def using len lev True d0 t1
      by (subst tick_next_unfold) simp
    moreover have "(low_clock s + 1) mod 256 = 0" "(low_clock s + 1) div 256 = Suc ?h1"
      using h255 by (simp_all add: low_clock_def)
    ultimately show ?thesis by (simp add: set_low_def)
  qed
qed

lemma ticks_low:
  "low_idle s \<Longrightarrow> hand (wheel s ! 0) < 256 \<Longrightarrow> low_clock s + k < 65536 \<Longrightarrow>
     ticks k s = Some (Inr (set_low s (low_clock s + k)))"
proof (induction k arbitrary: s)
  case 0
  then have "set_low s (low_clock s) = s"
    by (simp add: set_low_def low_clock_def low_idle_def set_hand_def)
  then show ?case by simp
next
  case (Suc k)
  let ?s1 = "set_low s (low_clock s + 1)"
  from Suc.prems have t: "ttimer_tick s = Some (Inr ?s1)"
    by (intro tick_low) simp_all
  note p = set_low_props[OF Suc.prems(1), of "low_clock s + 1"]
  have md: "a mod 256 + 256 * (a div 256) = a" for a :: nat by (rule mod_mult_div_eq)
  have c1: "low_clock ?s1 = low_clock s + 1"
    unfolding low_clock_def[of ?s1] p(2) p(3) by (rule md)
  have "ticks k ?s1 = Some (Inr (set_low ?s1 (low_clock ?s1 + k)))"
    using Suc.prems p(1,2) c1 by (intro Suc.IH) simp_all
  with t c1 p(4) show ?case by simp
qed
lemma ticks_add:
  "ticks (a + b) s =
     Option.bind (ticks a s) (\<lambda>res. case res of Inl e \<Rightarrow> Some (Inl e) | Inr s1 \<Rightarrow> ticks b s1)"
proof (induction a arbitrary: s)
  case 0
  show ?case by simp
next
  case (Suc a)
  show ?case
  proof (cases "ttimer_tick s")
    case None
    then show ?thesis by simp
  next
    case (Some r)
    then show ?thesis by (cases r) (simp_all add: Suc.IH)
  qed
qed

lemma ticks_round:
  assumes "low_idle s" and "hand (wheel s ! 0) = 0" and "hand (wheel s ! 1) = 0"
  shows "ticks 65536 s = ttimer_tick (set_low s 65535)"
proof -
  have "low_clock s = 0" using assms(2,3) by (simp add: low_clock_def)
  then have "ticks 65535 s = Some (Inr (set_low s 65535))"
    using ticks_low[OF assms(1), of 65535] assms(2) by simp
  moreover have "ticks 1 s' = ttimer_tick s'" for s'
  proof (cases "ttimer_tick s'")
    case None
    then show ?thesis by simp
  next
    case (Some r)
    then show ?thesis by (cases r) simp_all
  qed
  ultimately show ?thesis
    using ticks_add[of 65535 1 s] by simp
qed

lemma bump_clock3:
  assumes "a < 256" and "b < 256" and "c < 256"
  shows "(bump ^^ (a + 256 * b + 256 * (256 * c))) [0, 0, 0] = [a, b, c]"
proof -
  have "(bump ^^ (a + 256 * b + 256 * (256 * c))) [0, 0, 0]
          = (bump ^^ (a + 256 * b)) ((bump ^^ (256 * (256 * c))) [0, 0, 0])"
    by (simp only: funpow_add o_apply)
  also have "(bump ^^ (256 * (256 * c))) [0, 0, 0] = 0 # 0 # (bump ^^ c) [0]"
    by (simp only: bump_rounds)
  also have "(bump ^^ c) [0] = [c]"
    using bump_less[of 0 c "[]"] assms(3) by simp
  finally show ?thesis
    using bump_clock[OF assms(1,2), of "[c]"] by simp
qed

lemma fresh_state_span: "fresh_state (256 ^ 3) 0 = hands_state [0, 0, 0]"
  by (simp add: fresh_state_def hands_state_def with_refs_def ttimer_create_def create_levels_def
      empty_wheel_def WHEEL_MAX_LEVELS_def DIV_BY_BUCKETS_def Let_def numeral_3_eq_3)

lemma ticks_16711680:
  "ticks 16711680 (fresh_state (256 ^ 3) 0) = Some (Inr (hands_state [0, 0, 255]))"
proof -
  have "(16711680::nat) = 0 + 256 * 0 + 256 * (256 * 255)" by simp
  then show ?thesis
    using bump_clock3[of 0 0 255]
    by (simp only: fresh_state_span ticks_hands_state[OF list.distinct(2)])
qed

lemma ticks_three_rounds:
  "ticks 196608 s =
     Option.bind (ticks 65536 s) (\<lambda>res. case res of Inl e \<Rightarrow> Some (Inl e) | Inr s1 \<Rightarrow>
       Option.bind (ticks 65536 s1) (\<lambda>res. case res of Inl e \<Rightarrow> Some (Inl e) | Inr s2 \<Rightarrow>
         ticks 65536 s2))"
proof -
  have "(196608::nat) = 65536 + (65536 + 65536)" by simp
  then show ?thesis by (simp only: ticks_add)
qed

lemma ticks_four_rounds:
  "ticks 262144 s =
     Option.bind (ticks 196608 s) (\<lambda>res. case res of Inl e \<Rightarrow> Some (Inl e) | Inr s1 \<Rightarrow>
       ticks 65536 s1)"
  using ticks_add[of 196608 65536 s] by simp

section \<open>Sizing of the wheel (C5)\<close>

lemma count_levels_floorlog: "count_levels m lv = lv + floorlog 256 (nat m)"
proof (induction m lv rule: count_levels.induct)
  case (1 m lv)
  show ?case
  proof (cases "0 < m")
    case True
    have "floorlog 256 (nat m) = floorlog 256 (nat m div 256) + 1"
      using True by (subst compute_floorlog) simp
    moreover have "nat (m div 256) = nat m div 256"
      using True by (simp add: nat_div_distrib)
    ultimately show ?thesis
      using True "1.IH" by (simp add: DIV_BY_BUCKETS_def)
  next
    case False
    then show ?thesis by (simp add: floorlog_def)
  qed
qed

lemma create_levels_floorlog:
  "create_levels m =
     (if 0 < m then min (floorlog 256 (nat m)) WHEEL_MAX_LEVELS else WHEEL_MAX_LEVELS)"
  by (simp add: create_levels_def count_levels_floorlog floorlog_def Let_def
      del: count_levels.simps)

text \<open>
  C5, as stated, fails: for \<open>maxtimeout = 256\<close> the loop of \<^verbatim>\<open>ttimer_create\<close> counts two
  base-256 digits and allocates two levels, while \<open>ceil (log_256 256)\<close> clamped to
  \<open>[1, 3]\<close> is one.
\<close>

theorem create_levels_ceil_log_counterexample:
  "levels (the (ttimer_create True 256 0))
     \<noteq> max 1 (min WHEEL_MAX_LEVELS (nat \<lceil>log 256 256\<rceil>))"
  by (simp add: ttimer_create_def create_levels_def WHEEL_MAX_LEVELS_def DIV_BY_BUCKETS_def)

text \<open>
  C5, amended: when the allocation succeeds, \<^verbatim>\<open>ttimer_create\<close> returns a wheel with
  \<open>floor (log_256 maxtimeout) + 1\<close> levels (the number of base-256 digits of
  \<open>maxtimeout\<close>) clamped to \<open>[1, WHEEL_MAX_LEVELS]\<close> when \<open>maxtimeout\<close> is positive, and
  with \<open>WHEEL_MAX_LEVELS\<close> levels otherwise; every level is allocated with hand 0 and
  empty buckets.
\<close>

theorem create_levels_digits:
  "ttimer_create True m now =
     Some \<lparr>levels = create_levels m, lastrun = now,
           wheel = replicate (create_levels m) empty_wheel\<rparr>
   \<and> create_levels m =
       (if 0 < m then max 1 (min WHEEL_MAX_LEVELS (nat \<lfloor>log 256 (real_of_int m)\<rfloor> + 1))
        else WHEEL_MAX_LEVELS)"
proof -
  have "create_levels m =
       (if 0 < m then max 1 (min WHEEL_MAX_LEVELS (nat \<lfloor>log 256 (real_of_int m)\<rfloor> + 1))
        else WHEEL_MAX_LEVELS)"
    by (simp add: create_levels_floorlog floorlog_def WHEEL_MAX_LEVELS_def min_def max_def)
  then show ?thesis
    by (simp add: ttimer_create_def Let_def)
qed

section \<open>Catching up with a time that does not advance (C2)\<close>

text \<open>
  C2, as stated, fails: \<^verbatim>\<open>ttimer_run_ticks\<close> ends with \<^verbatim>\<open>timer->lastrun = now\<close> whether or
  not the loop ran, so a \<open>now\<close> before the stored time moves the stored time back. Here
  the wheel was created at time 5 and is run with \<open>now = 3\<close>.
\<close>

theorem run_ticks_backwards_counterexample:
  "3 < lastrun (fresh_state 512 5)
   \<and> ttimer_run_ticks (fresh_state 512 5) 3 \<noteq> Some (Inr (fresh_state 512 5))"
proof -
  have l: "lastrun (fresh_state 512 5) = 5"
    by (simp add: fresh_state_def with_refs_def ttimer_create_def Let_def)
  have r: "ttimer_run_ticks (fresh_state 512 5) 3
             = Some (Inr ((fresh_state 512 5)\<lparr>lastrun := 3\<rparr>))"
    using l by (simp add: ttimer_run_ticks_def run_loop.simps)
  have "(fresh_state 512 5)\<lparr>lastrun := 3\<rparr> \<noteq> fresh_state 512 5"
  proof
    assume "(fresh_state 512 5)\<lparr>lastrun := 3\<rparr> = fresh_state 512 5"
    then have "lastrun ((fresh_state 512 5)\<lparr>lastrun := 3\<rparr>) = lastrun (fresh_state 512 5)"
      by simp
    with l show False by simp
  qed
  with l r show ?thesis by simp
qed

text \<open>
  C2, amended: when \<open>now\<close> is not after the stored last-processed time,
  \<^verbatim>\<open>ttimer_run_ticks\<close> runs no tick, invokes no callback and leaves levels, hands,
  buckets and references unchanged; the stored last-processed time becomes \<open>now\<close> (so
  it is unchanged exactly when \<open>now\<close> equals it).
\<close>

theorem run_ticks_not_after:
  "now \<le> lastrun s \<Longrightarrow> ttimer_run_ticks s now = Some (Inr (s\<lparr>lastrun := now\<rparr>))"
  by (simp add: ttimer_run_ticks_def run_loop.simps)

theorem run_ticks_not_after_witness:
  "(3::int) \<le> lastrun (fresh_state 512 5)
   \<and> ttimer_run_ticks (fresh_state 512 5) 3
       = Some (Inr ((fresh_state 512 5)\<lparr>lastrun := 3\<rparr>))"
  using run_ticks_not_after [of 3 "fresh_state 512 5"]
  by (simp add: fresh_state_def with_refs_def ttimer_create_def Let_def)

section \<open>Wheels with fewer than three levels (C1, C3)\<close>

text \<open>
  C3: \<^verbatim>\<open>ttimer_start\<close> bounds its walk by \<^verbatim>\<open>WHEEL_MAX_LEVELS\<close>, not by
  \<^verbatim>\<open>timer->levels\<close> as \<^verbatim>\<open>ttimer_tick\<close> does. On the one-level wheel that
  \<^verbatim>\<open>ttimer_create(255, 0)\<close> allocates, a start with timeout 300 on an idle reference
  with a callback reads \<^verbatim>\<open>timer->wheel[1]\<close>, beyond the allocation.
\<close>

theorem start_one_level_out_of_bounds:
  "levels (fresh_state 255 0) = 1 \<and> length (wheel (fresh_state 255 0)) = 1
   \<and> func (refs (fresh_state 255 0) 0) \<noteq> None
   \<and> \<not> scheduled (refs (fresh_state 255 0) 0)
   \<and> ttimer_start (fresh_state 255 0) 0 300 = Inl (Out_of_bounds 1)"
  by (simp add: eval_defs)

text \<open>
  C1 fails in two ways. On the three-level wheel of \<^verbatim>\<open>ttimer_create(256^3, 0)\<close>, ticked
  16711680 times (hands 0, 0, 255, no callback run), a start with timeout
  \<open>196608 = 3 * 256 ^ 2\<close>, well inside the span \<open>256 ^ 3\<close>, carries into a wrap of level 2:
  the clamp stores \<open>2 * 65536\<close> as remaining in bucket 2 of level 2. That bucket is reached
  on tick 196608, where the reference is not fired but re-cascaded into bucket 3; the
  callback runs on tick 262144, 65536 ticks late. On the one-level wheel of
  \<^verbatim>\<open>ttimer_create(255, 0)\<close>, ticked 200 times, a start with timeout 100 reads
  \<^verbatim>\<open>timer->wheel[1]\<close> beyond the allocation, so the reference is never linked.
\<close>

theorem start_misses_its_tick:
  "(case ticks 16711680 (fresh_state (256 ^ 3) 0) of
      Some (Inr s0) \<Rightarrow>
        levels s0 = 3 \<and> map hand (wheel s0) = [0, 0, 255] \<and> calls s0 = []
        \<and> (case ttimer_start s0 0 196608 of
             Inl e \<Rightarrow> False
           | Inr s \<Rightarrow>
               (case ticks 196608 s of
                  Some (Inr s') \<Rightarrow> calls s' = [] \<and> scheduled (refs s' 0)
                | _ \<Rightarrow> False)
               \<and> (case ticks 262144 s of
                    Some (Inr s') \<Rightarrow> calls s' = [(1, 0, 0)] \<and> \<not> scheduled (refs s' 0)
                  | _ \<Rightarrow> False))
    | _ \<Rightarrow> False)
   \<and> (case ticks 200 (fresh_state 255 0) of
        Some (Inr s) \<Rightarrow>
          levels s = 1 \<and> map hand (wheel s) = [200] \<and> calls s = []
          \<and> ttimer_start s 0 100 = Inl (Out_of_bounds 1)
      | _ \<Rightarrow> False)"
proof -
  have late: "case ticks 16711680 (fresh_state (256 ^ 3) 0) of
      Some (Inr s0) \<Rightarrow>
        levels s0 = 3 \<and> map hand (wheel s0) = [0, 0, 255] \<and> calls s0 = []
        \<and> (case ttimer_start s0 0 196608 of
             Inl e \<Rightarrow> False
           | Inr s \<Rightarrow>
               (case ticks 196608 s of
                  Some (Inr s') \<Rightarrow> calls s' = [] \<and> scheduled (refs s' 0)
                | _ \<Rightarrow> False)
               \<and> (case ticks 262144 s of
                    Some (Inr s') \<Rightarrow> calls s' = [(1, 0, 0)] \<and> \<not> scheduled (refs s' 0)
                  | _ \<Rightarrow> False))
    | _ \<Rightarrow> False"
    by (simp only: ticks_16711680 option.case sum.case ticks_four_rounds ticks_three_rounds)
       (simp add: ticks_round low_idle_def set_low_def model_defs)
  have oob: "case ticks 200 (fresh_state 255 0) of
        Some (Inr s) \<Rightarrow>
          levels s = 1 \<and> map hand (wheel s) = [200] \<and> calls s = []
          \<and> ttimer_start s 0 100 = Inl (Out_of_bounds 1)
      | _ \<Rightarrow> False"
    by (simp add: eval_defs)
  from late oob show ?thesis by (rule conjI)
qed

section \<open>A timeout beyond the span of three levels (C4)\<close>

text \<open>
  C4: the three-level wheel of \<^verbatim>\<open>ttimer_create(256^4, 0)\<close> is ticked 65517 times; its hands
  then stand at 237, 255 and 0 and no callback has run. A start with timeout
  \<open>256 ^ 3 + 19\<close> places the reference at level 2 in bucket 1; no callback runs during the
  first 18 ticks and the callback runs on tick 19, \<open>256 ^ 3\<close> ticks early.
\<close>

theorem clamp_fires_early:
  "case ticks 65517 (fresh_state (256 ^ 4) 0) of
     Some (Inr s0) \<Rightarrow>
       levels s0 = 3 \<and> map hand (wheel s0) = [237, 255, 0] \<and> calls s0 = []
       \<and> (case ttimer_start s0 0 (256 ^ 3 + 19) of
            Inl e \<Rightarrow> False
          | Inr s \<Rightarrow>
              (case ticks 18 s of Some (Inr s') \<Rightarrow> calls s' = [] | _ \<Rightarrow> False)
              \<and> (case ticks 19 s of
                   Some (Inr s') \<Rightarrow> calls s' = [(1, 0, 0)] \<and> \<not> scheduled (refs s' 0)
                 | _ \<Rightarrow> False))
   | _ \<Rightarrow> False"
  by (simp only: ticks_65517 option.case sum.case) (simp add: eval_defs)

section \<open>Catching up is repeated ticking (C7)\<close>

lemma run_loop_ticks:
  "run_loop s (lastrun s + int k) =
     map_option (map_sum (\<lambda>e. e) (\<lambda>s'. s'\<lparr>lastrun := lastrun s + int k\<rparr>)) (ticks k s)"
proof (induction k arbitrary: s)
  case 0
  show ?case by (subst run_loop.simps) simp
next
  case (Suc k)
  show ?case
  proof (cases "ttimer_tick s")
    case None
    then show ?thesis by (subst run_loop.simps) simp
  next
    case (Some r)
    show ?thesis
    proof (cases r)
      case (Inl e)
      with Some show ?thesis by (subst run_loop.simps) simp
    next
      case (Inr s1)
      with Some have l: "lastrun s1 = lastrun s"
        using tick_next_frame[of s 0 s1] by (simp add: ttimer_tick_def)
      let ?s2 = "s1\<lparr>lastrun := lastrun s1 + 1\<rparr>"
      let ?now = "lastrun s + int (Suc k)"
      have eq: "lastrun ?s2 + int k = ?now"
        using l by simp
      have "run_loop ?s2 ?now =
              map_option (map_sum (\<lambda>e. e) (\<lambda>s'. s'\<lparr>lastrun := ?now\<rparr>)) (ticks k ?s2)"
        using Suc.IH[of ?s2] unfolding eq .
      also have "\<dots> = map_option (map_sum (\<lambda>e. e) (\<lambda>s'. s'\<lparr>lastrun := ?now\<rparr>)) (ticks k s1)"
        by (simp only: ticks_lastrun option.map_comp sum.map_comp comp_def)
           (simp add: comp_def)
      finally have "run_loop ?s2 ?now =
              map_option (map_sum (\<lambda>e. e) (\<lambda>s'. s'\<lparr>lastrun := ?now\<rparr>)) (ticks k s1)" .
      with Some Inr l show ?thesis
        by (subst run_loop.simps) simp
    qed
  qed
qed

text \<open>
  C7: for every state and every \<open>k\<close> (in particular \<open>k \<ge> 1\<close>), \<^verbatim>\<open>ttimer_run_ticks\<close> with
  \<open>now = lastrun + k\<close> returns exactly what \<open>k\<close> calls of \<^verbatim>\<open>ttimer_tick\<close> in sequence return
  (the same wheel, references and sequence of callback calls, the same error, or no
  result at all), with the stored last-processed time set to \<open>now\<close>.
\<close>

theorem run_ticks_equals_ticks:
  "ttimer_run_ticks s (lastrun s + int k) =
     map_option (map_sum (\<lambda>e. e) (\<lambda>s'. s'\<lparr>lastrun := lastrun s + int k\<rparr>)) (ticks k s)"
proof (cases "ticks k s")
  case None
  then show ?thesis by (simp add: ttimer_run_ticks_def run_loop_ticks)
next
  case (Some r)
  then show ?thesis
    by (cases r) (simp_all add: ttimer_run_ticks_def run_loop_ticks)
qed

section \<open>The linkage invariant (C8)\<close>

lemma holds_on_simps [simp]:
  "holds_on Q (Inl e) = True"
  "holds_on Q (Inr s) = Q s"
  by (simp_all add: holds_on_def)

lemma holds_on_mono: "holds_on Q res \<Longrightarrow> (\<And>s. Q s \<Longrightarrow> Q' s) \<Longrightarrow> holds_on Q' res"
  by (cases res) simp_all

lemma linked_simps [simp]:
  "linked (set_remaining s e v) a l i = linked s a l i"
  "linked (set_scheduled s e b) a l i = linked s a l i"
  "linked (invoke s e) a l i = linked s a l i"
  "linked (set_hand s lv n) a l i = linked s a l i"
  by (auto simp: linked_def)

lemma linked_list_insert_head [simp]:
  "lv < length (wheel s) \<Longrightarrow> r < WHEEL_BUCKETS \<Longrightarrow>
     linked (list_insert_head s lv r e) a l i = (linked s a l i \<or> (a = e \<and> l = lv \<and> i = r))"
  by (auto simp: linked_def split: if_splits)

lemma linked_list_remove:
  "links_ok s \<Longrightarrow> linked (list_remove s e) a l i = (linked s a l i \<and> a \<noteq> e)"
  by (auto simp: linked_def links_ok_def)

lemma links_ok_unlink:
  assumes "links_ok s"
  shows "links_ok (set_scheduled (list_remove s e) e False)"
    and "\<not> linked (set_scheduled (list_remove s e) e False) e l i"
proof -
  let ?s = "set_scheduled (list_remove s e) e False"
  have lk: "linked ?s a l i = (linked s a l i \<and> a \<noteq> e)" for a l i
    using assms by (simp add: linked_list_remove)
  show "\<not> linked ?s e l i" using assms by (simp add: linked_list_remove)
  have "distinct (bucket (wheel ?s ! l) i)" if "l < length (wheel ?s)" "i < WHEEL_BUCKETS" for l i
    using assms that by (simp add: links_ok_def)
  moreover have "l = l' \<and> i = i'" if "linked ?s a l i" "linked ?s a l' i'" for a l i l' i'
    using assms that unfolding lk links_ok_def by blast
  moreover have "scheduled (refs ?s a) \<longleftrightarrow> (\<exists>l i. linked ?s a l i)" for a
    using assms unfolding lk links_ok_def by (cases "a = e") auto
  ultimately show "links_ok ?s"
    unfolding links_ok_def by blast
qed

lemma scheduled_set_remaining: "scheduled (refs (set_remaining s e v) a) = scheduled (refs s a)"
  by simp

lemma links_ok_frame:
  "links_ok (set_remaining s e v) = links_ok s"
  "links_ok (invoke s e) = links_ok s"
  "links_ok (set_hand s lv n) = links_ok s"
  by (simp_all add: links_ok_def scheduled_set_remaining del: frame_set_remaining(4))

lemma links_ok_insert:
  assumes ok: "links_ok s" and idle: "\<not> scheduled (refs s e)"
    and lv: "lv < length (wheel s)" and r: "r < WHEEL_BUCKETS"
  shows "links_ok (set_scheduled (list_insert_head s lv r e) e True)"
proof -
  let ?s = "set_scheduled (list_insert_head s lv r e) e True"
  from ok idle have free: "\<not> linked s e l i" for l i
    unfolding links_ok_def by blast
  have lk: "linked ?s a l i = (linked s a l i \<or> (a = e \<and> l = lv \<and> i = r))" for a l i
    using lv r by simp
  have "distinct (bucket (wheel ?s ! l) i)" if "l < length (wheel ?s)" "i < WHEEL_BUCKETS" for l i
    using ok that free[of l i] by (auto simp: links_ok_def linked_def)
  moreover have "l = l' \<and> i = i'" if "linked ?s a l i" "linked ?s a l' i'" for a l i l' i'
    using ok that free unfolding lk links_ok_def by blast
  moreover have "scheduled (refs ?s a) \<longleftrightarrow> (\<exists>l i. linked ?s a l i)" for a
    using ok unfolding lk links_ok_def by (cases "a = e") auto
  ultimately show ?thesis
    unfolding links_ok_def by blast
qed

lemma links_ok_start:
  assumes "links_ok s" and "ttimer_start s e t = Inr s'"
  shows "links_ok s'"
proof -
  from ttimer_start_Inr[OF assms(2)] obtain v lv r where
    lv: "lv < length (wheel s)" and r: "r < 256"
    and s': "s' = set_scheduled (list_insert_head (set_remaining s e v) lv r e) e True"
    and idle: "\<not> scheduled (refs s e)"
    by blast
  have "links_ok (set_scheduled (list_insert_head (set_remaining s e v) lv r e) e True)"
    using assms(1) idle lv r
    by (intro links_ok_insert) (simp_all add: links_ok_frame WHEEL_BUCKETS_def)
  with s' show ?thesis by simp
qed

lemma links_ok_stop:
  assumes "links_ok s"
  shows "links_ok (snd (ttimer_stop s e))"
  using assms links_ok_unlink(1)[OF assms, of e] by (simp add: ttimer_stop_def Let_def)

lemma links_ok_drain_step:
  assumes "links_ok s" and "drain_step s e = Inr s'"
  shows "links_ok s'"
  using assms(2) links_ok_unlink(1)[OF assms(1), of e]
  by (auto simp: drain_step_def links_ok_frame split: if_splits intro: links_ok_start)

lemma links_ok_tick_drain:
  assumes "tick_drain s level n = Some res"
  shows "links_ok s \<longrightarrow> holds_on links_ok res"
  using assms
proof (induction s res rule: tick_drain_induct)
  case (Step s ent rest s' res)
  then show ?case using links_ok_drain_step[of s ent s'] by blast
qed simp_all

lemma links_ok_tick_next:
  assumes "tick_next s level = Some res"
  shows "links_ok s \<longrightarrow> holds_on links_ok res"
  using assms
proof (induction s level res rule: tick_next_induct)
  case (Last s level s1)
  then show ?case using links_ok_tick_drain[of s level _ "Inr s1"]
    by (simp add: links_ok_frame)
next
  case (Next s level s1 res)
  then show ?case using links_ok_tick_drain[of s level 0 "Inr s1"]
    by (simp add: links_ok_frame)
qed simp_all

lemma links_ok_tick:
  "links_ok s \<Longrightarrow> ttimer_tick s = Some (Inr s') \<Longrightarrow> links_ok s'"
  using links_ok_tick_next[of s 0 "Inr s'"] by (simp add: ttimer_tick_def)
lemma links_ok_fresh_state: "links_ok (fresh_state m now)"
  by (auto simp: links_ok_def linked_def fresh_state_def with_refs_def ttimer_create_def
      empty_wheel_def idle_ref_def Let_def)


text \<open>
  In a state where every reference is linked into at most one bucket (and at most once),
  and is flagged \<^verbatim>\<open>scheduled\<close> exactly when it is linked, every \<^verbatim>\<open>ttimer_start\<close> that stays
  within the allocated levels, every \<^verbatim>\<open>ttimer_stop\<close> and every \<^verbatim>\<open>ttimer_tick\<close> that
  returns leads to such a state again.
\<close>

lemma links_ok_preserved:
  "links_ok s \<Longrightarrow>
     (\<forall>ent t s'. ttimer_start s ent t = Inr s' \<longrightarrow> links_ok s')
     \<and> (\<forall>ent. links_ok (snd (ttimer_stop s ent)))
     \<and> (\<forall>s'. ttimer_tick s = Some (Inr s') \<longrightarrow> links_ok s')"
  using links_ok_start[of s] links_ok_stop[of s] links_ok_tick[of s] by blast

lemma links_ok_preserved_example:
  "links_ok (fresh_state 512 0)
   \<and> (case ttimer_start (fresh_state 512 0) 0 5 of
        Inl e \<Rightarrow> False
      | Inr s \<Rightarrow> links_ok s \<and> scheduled (refs s 0) \<and> linked s 0 0 5
          \<and> links_ok (snd (ttimer_stop s 0))
          \<and> (case ttimer_tick s of Some (Inr s') \<Rightarrow> links_ok s' | _ \<Rightarrow> False))"
proof -
  have ok: "links_ok (fresh_state 512 0)"
    by (rule links_ok_fresh_state)
  obtain s where s: "ttimer_start (fresh_state 512 0) 0 5 = Inr s"
    by (cases "ttimer_start (fresh_state 512 0) 0 5") (simp_all add: eval_defs)
  obtain s' where s': "ttimer_tick s = Some (Inr s')"
    using s by (cases "ttimer_tick s") (auto simp: eval_defs split: sum.splits)
  have sch: "scheduled (refs s 0) \<and> linked s 0 0 5"
    using s by (auto simp: eval_defs linked_def)
  from links_ok_preserved[OF ok] s have ok1: "links_ok s" by blast
  from links_ok_preserved[OF ok1] s' have "links_ok (snd (ttimer_stop s 0))" "links_ok s'"
    by blast+
  with ok ok1 s s' sch show ?thesis by simp
qed

text \<open>
  C8 fails where the start leaves the allocated levels, by the defect of C3. The wheel of
  \<^verbatim>\<open>ttimer_create(512, 0)\<close> has two levels. After 65535 ticks its hands stand at 255 and
  255, every bucket is empty and every reference idle, so the invariant holds (lemma
  \<open>links_ok_hands_state\<close>). A start with timeout 1 on a reference with a callback carries
  through both levels and, since it compares the level with \<^verbatim>\<open>WHEEL_MAX_LEVELS\<close> and not
  with \<^verbatim>\<open>timer->levels\<close>, reads \<^verbatim>\<open>timer->wheel[2]\<close>, beyond the allocation. The C code
  goes on to insert the reference into a list head of that memory and to set its
  \<^verbatim>\<open>scheduled\<close> flag: the reference is flagged and is in no bucket of the wheel.
\<close>

theorem start_two_levels_out_of_bounds:
  "ticks 65535 (fresh_state 512 0) = Some (Inr (hands_state [255, 255]))
   \<and> levels (hands_state [255, 255]) = 2
   \<and> wheel (hands_state [255, 255])
       = [\<lparr>hand = 255, bucket = (\<lambda>i. [])\<rparr>, \<lparr>hand = 255, bucket = (\<lambda>i. [])\<rparr>]
   \<and> refs (hands_state [255, 255]) = (\<lambda>a. idle_ref)
   \<and> func idle_ref = Some 1 \<and> \<not> scheduled idle_ref
   \<and> ttimer_start (hands_state [255, 255]) 0 1 = Inl (Out_of_bounds 2)"
  by (simp only: ticks_two_levels_65535 simp_thms) (simp add: eval_defs)

section \<open>Cancellation (C6)\<close>

lemma fired_frame [simp]:
  "fired (set_remaining s e v) a = fired s a"
  "fired (set_scheduled s e b) a = fired s a"
  "fired (set_hand s lv n) a = fired s a"
  "fired (list_insert_head s lv r e) a = fired s a"
  "fired (list_remove s e) a = fired s a"
  "fired (invoke s e) a = (if a = e then Suc (fired s a) else fired s a)"
  by (simp_all add: fired_def)

lemma linked_list_remove_other:
  "a \<noteq> e \<Longrightarrow> linked (list_remove s e) a l i = linked s a l i"
  by (auto simp: linked_def)

lemma fired_start:
  "ttimer_start s e t = Inr s' \<Longrightarrow> fired s' a = fired s a"
  by (drule ttimer_start_Inr(1)) auto

lemma linked_start_other:
  "ttimer_start s e t = Inr s' \<Longrightarrow> a \<noteq> e \<Longrightarrow> linked s' a l i = linked s a l i"
  by (drule ttimer_start_Inr(1)) (auto simp: WHEEL_BUCKETS_def)

lemma scheduled_start_other:
  "ttimer_start s e t = Inr s' \<Longrightarrow> a \<noteq> e \<Longrightarrow> refs s' a = refs s a"
  by (drule ttimer_start_Inr(1)) auto

text \<open>A drain step on \<open>e\<close> leaves every other reference alone.\<close>

lemma drain_step_other:
  assumes "drain_step s e = Inr s'" and "a \<noteq> e"
  shows "fired s' a = fired s a" "linked s' a l i = linked s a l i" "refs s' a = refs s a"
  using assms
  by (auto simp: drain_step_def fired_start linked_start_other scheduled_start_other
      linked_list_remove_other split: if_splits)

lemma tick_drain_unlinked:
  assumes "tick_drain s level n = Some res"
  shows "n < WHEEL_BUCKETS \<longrightarrow> unlinked s ent \<longrightarrow>
           holds_on (\<lambda>s'. unlinked s' ent \<and> fired s' ent = fired s ent
                          \<and> refs s' ent = refs s ent) res"
  using assms
proof (induction s res rule: tick_drain_induct)
  case (Step s e rest s' res)
  show ?case
  proof (intro impI)
    assume n: "n < WHEEL_BUCKETS" and u: "unlinked s ent"
    from Step(1,2) n have "linked s e level n" by (simp add: linked_def)
    with u have ne: "ent \<noteq> e" by (auto simp: unlinked_def)
    from drain_step_other[OF Step(3) ne]
    have 1: "fired s' ent = fired s ent" "unlinked s' ent = unlinked s ent" "refs s' ent = refs s ent"
      by (simp_all add: unlinked_def)
    with Step(4) n u show "holds_on (\<lambda>s'. unlinked s' ent \<and> fired s' ent = fired s ent
                          \<and> refs s' ent = refs s ent) res"
      by (cases res) simp_all
  qed
qed simp_all

lemma unlinked_set_hand [simp]: "unlinked (set_hand s lv n) ent = unlinked s ent"
  by (simp add: unlinked_def)

lemma tick_next_unlinked:
  assumes "tick_next s level = Some res"
  shows "unlinked s ent \<longrightarrow>
           holds_on (\<lambda>s'. unlinked s' ent \<and> fired s' ent = fired s ent
                          \<and> refs s' ent = refs s ent) res"
  using assms
proof (induction s level res rule: tick_next_induct)
  case (Last s level s1)
  then show ?case
    using tick_drain_unlinked[OF Last(2), of ent] by (simp add: WHEEL_BUCKETS_def)
next
  case (Next s level s1 res)
  show ?case
  proof (intro impI)
    assume u: "unlinked s ent"
    with tick_drain_unlinked[OF Next(2), of ent]
    have 1: "unlinked s1 ent" "fired s1 ent = fired s ent" "refs s1 ent = refs s ent"
      by (simp_all add: WHEEL_BUCKETS_def)
    with Next(5) show "holds_on (\<lambda>s'. unlinked s' ent \<and> fired s' ent = fired s ent
                          \<and> refs s' ent = refs s ent) res"
      by (cases res) simp_all
  qed
qed simp_all

lemma ticks_unlinked:
  "unlinked s ent \<Longrightarrow> ticks k s = Some res \<Longrightarrow>
     holds_on (\<lambda>s'. unlinked s' ent \<and> fired s' ent = fired s ent \<and> refs s' ent = refs s ent) res"
proof (induction k arbitrary: s)
  case 0
  then show ?case by auto
next
  case (Suc k)
  from Suc.prems(2) obtain r where t: "ttimer_tick s = Some r"
    by (auto split: Option.bind_splits)
  show ?case
  proof (cases r)
    case (Inl e)
    with t Suc.prems(2) show ?thesis by auto
  next
    case (Inr s1)
    with t Suc.prems(2) have k: "ticks k s1 = Some res" by simp
    from tick_next_unlinked[of s 0 r ent] t Inr Suc.prems(1)
    have 1: "unlinked s1 ent" "fired s1 ent = fired s ent" "refs s1 ent = refs s ent"
      by (simp_all add: ttimer_tick_def)
    from Suc.IH[OF 1(1) k] 1 show ?thesis
      by (cases res) simp_all
  qed
qed

text \<open>
  C6: on a scheduled reference \<^verbatim>\<open>ttimer_stop\<close> returns true, clears the flag, unlinks the
  reference from its bucket and leaves the links of all other references alone; however
  many ticks follow, the callback of the reference is not invoked by them. On an
  unscheduled reference it returns false and the state is unchanged; so a second stop
  is a no-op.
\<close>

theorem stop_cancels:
  "links_ok s \<Longrightarrow>
     (scheduled (refs s ent) \<longrightarrow>
        fst (ttimer_stop s ent)
        \<and> \<not> scheduled (refs (snd (ttimer_stop s ent)) ent)
        \<and> (\<forall>l i. \<not> linked (snd (ttimer_stop s ent)) ent l i)
        \<and> (\<forall>a l i. a \<noteq> ent \<longrightarrow> linked (snd (ttimer_stop s ent)) a l i = linked s a l i)
        \<and> (\<forall>k s'. ticks k (snd (ttimer_stop s ent)) = Some (Inr s') \<longrightarrow>
              fired s' ent = fired s ent \<and> \<not> scheduled (refs s' ent)))
     \<and> (\<not> scheduled (refs s ent) \<longrightarrow> ttimer_stop s ent = (False, s))"
proof (intro conjI impI)
  assume ok: "links_ok s" and sch: "scheduled (refs s ent)"
  let ?s = "set_scheduled (list_remove s ent) ent False"
  from sch have stop: "ttimer_stop s ent = (True, ?s)"
    by (simp add: ttimer_stop_def)
  show "fst (ttimer_stop s ent)" by (simp add: stop)
  show "\<not> scheduled (refs (snd (ttimer_stop s ent)) ent)" by (simp add: stop)
  from links_ok_unlink(2)[OF ok] have u: "unlinked ?s ent"
    by (simp add: unlinked_def)
  then show "\<forall>l i. \<not> linked (snd (ttimer_stop s ent)) ent l i"
    by (simp add: stop unlinked_def)
  show "\<forall>a l i. a \<noteq> ent \<longrightarrow> linked (snd (ttimer_stop s ent)) a l i = linked s a l i"
    by (simp add: stop linked_list_remove_other)
  show "\<forall>k s'. ticks k (snd (ttimer_stop s ent)) = Some (Inr s') \<longrightarrow>
              fired s' ent = fired s ent \<and> \<not> scheduled (refs s' ent)"
  proof (intro allI impI)
    fix k s' assume "ticks k (snd (ttimer_stop s ent)) = Some (Inr s')"
    then have "ticks k ?s = Some (Inr s')" by (simp add: stop)
    from ticks_unlinked[OF u this]
    show "fired s' ent = fired s ent \<and> \<not> scheduled (refs s' ent)" by simp
  qed
next
  assume "\<not> scheduled (refs s ent)"
  then show "ttimer_stop s ent = (False, s)"
    by (simp add: ttimer_stop_def)
qed

theorem stop_cancels_witness:
  "case ttimer_start (fresh_state 512 0) 0 3 of
     Inl e \<Rightarrow> False
   | Inr s \<Rightarrow>
       links_ok s \<and> scheduled (refs s 0)
       \<and> fst (ttimer_stop s 0)
       \<and> \<not> scheduled (refs (snd (ttimer_stop s 0)) 0)
       \<and> (case ticks 5 (snd (ttimer_stop s 0)) of
            Some (Inr s') \<Rightarrow> fired s' 0 = fired s 0 \<and> fired s' 0 = 0
          | _ \<Rightarrow> False)
       \<and> (case ticks 5 s of Some (Inr s') \<Rightarrow> fired s' 0 = 1 | _ \<Rightarrow> False)
       \<and> ttimer_stop (snd (ttimer_stop s 0)) 0 = (False, snd (ttimer_stop s 0))"
proof -
  obtain s where s: "ttimer_start (fresh_state 512 0) 0 3 = Inr s"
    by (cases "ttimer_start (fresh_state 512 0) 0 3") (simp_all add: eval_defs)
  have ok: "links_ok s"
    using links_ok_start[OF links_ok_fresh_state s] .
  have sch: "scheduled (refs s 0)"
    using s by (auto simp: eval_defs)
  let ?s1 = "snd (ttimer_stop s 0)"
  obtain s' where s': "ticks 5 ?s1 = Some (Inr s')"
    using s by (cases "ticks 5 ?s1") (auto simp: eval_defs split: sum.splits)
  have f0: "fired s 0 = 0"
    using s by (auto simp: eval_defs fired_def)
  have run: "case ticks 5 s of Some (Inr s') \<Rightarrow> fired s' 0 = 1 | _ \<Rightarrow> False"
    using s by (auto simp: eval_defs fired_def)
  have ok1: "links_ok ?s1"
    using links_ok_stop[OF ok] .
  from stop_cancels[OF ok, of 0] sch s'
  have 1: "fst (ttimer_stop s 0)" "\<not> scheduled (refs ?s1 0)" "fired s' 0 = fired s 0"
    by blast+
  from stop_cancels[OF ok1, of 0] 1(2)
  have 2: "ttimer_stop ?s1 0 = (False, ?s1)" by blast
  from s ok sch s' f0 run 1 2 show ?thesis by simp
qed

section \<open>Termination of the loops of a tick\<close>

lemma set_remaining_same [simp]: "set_remaining s e (remaining (refs s e)) = s"
  by (simp add: set_remaining_def)

lemma start_next_place:
  "start_next s e level m t =
     (case place (map hand (wheel s)) level m t (remaining (refs s e)) of
        Inl x \<Rightarrow> Inl x
      | Inr (lv, r, rem) \<Rightarrow> Inr (set_remaining s e rem, lv, r))"
proof (induction s e level m t rule: start_next.induct)
  case (1 s ent level multiplier timeout)
  let ?hs = "map hand (wheel s)"
  show ?case
  proof (cases "length (wheel s) \<le> level")
    case True
    then show ?thesis
      by (simp add: start_next.simps[of s] place.simps[of ?hs level])
  next
    case inb: False
    let ?r = "MOD_BY_BUCKETS (int (hand (wheel s ! level)) + timeout)"
    let ?q = "DIV_BY_BUCKETS (int (hand (wheel s ! level)) + timeout)"
    show ?thesis
    proof (cases "0 < ?q \<and> level + 1 < WHEEL_MAX_LEVELS")
      case True
      from "1.IH"[OF inb refl refl refl _ refl refl refl] True
      show ?thesis using inb
        by (simp add: start_next.simps[of s] place.simps[of ?hs level] Let_def
            split: sum.splits prod.splits)
    next
      case False
      then show ?thesis using inb
        by (auto simp: start_next.simps[of s] place.simps[of ?hs level] Let_def)
    qed
  qed
qed

lemma ttimer_start_place:
  "ttimer_start s e t =
     (if \<not> 0 < t \<or> scheduled (refs s e) \<or> func (refs s e) = None then Inl Assertion_failed
      else case place (map hand (wheel s)) 0 1 t 0 of
        Inl x \<Rightarrow> Inl x
      | Inr (lv, r, rem) \<Rightarrow>
          if length (wheel s) \<le> lv then Inl (Out_of_bounds lv)
          else Inr (set_scheduled (list_insert_head (set_remaining s e rem) lv r e) e True))"
  by (auto simp: ttimer_start_def start_next_place split: sum.splits)
lemma div_mod_buckets: "int (MOD_BY_BUCKETS x) + 256 * DIV_BY_BUCKETS x = x"
  by (simp add: MOD_BY_BUCKETS_def DIV_BY_BUCKETS_def)

lemma carry_bound:
  assumes h: "h < (256::nat)" and q: "0 < DIV_BY_BUCKETS (int h + t)"
  shows "0 \<le> int (MOD_BY_BUCKETS (int h + t) * m)
              + int (m * WHEEL_BUCKETS) * (DIV_BY_BUCKETS (int h + t) - 1)"
    and "int (MOD_BY_BUCKETS (int h + t) * m)
              + int (m * WHEEL_BUCKETS) * (DIV_BY_BUCKETS (int h + t) - 1) \<le> int m * (t - 1)"
proof -
  let ?r = "MOD_BY_BUCKETS (int h + t)" and ?q = "DIV_BY_BUCKETS (int h + t)"
  have eq: "int ?r + 256 * ?q = int h + t" by (rule div_mod_buckets)
  have "int (?r * m) + int (m * WHEEL_BUCKETS) * (?q - 1) = int m * (int ?r + 256 * ?q - 256)"
    by (simp add: WHEEL_BUCKETS_def algebra_simps)
  also have "\<dots> = int m * (int h + t - 256)" by (simp only: eq)
  finally have A: "int (?r * m) + int (m * WHEEL_BUCKETS) * (?q - 1) = int m * (int h + t - 256)" .
  have "int h + t - 256 \<le> t - 1" using h by simp
  then have "int m * (int h + t - 256) \<le> int m * (t - 1)"
    by (intro mult_left_mono) simp_all
  with A show "int (?r * m) + int (m * WHEEL_BUCKETS) * (?q - 1) \<le> int m * (t - 1)" by simp
  have "0 \<le> int (m * WHEEL_BUCKETS) * (?q - 1)" using q by simp
  then show "0 \<le> int (?r * m) + int (m * WHEEL_BUCKETS) * (?q - 1)" by simp
qed

lemma place_bounds:
  "\<forall>i < length hs. hs ! i < 256 \<Longrightarrow> 0 < t \<Longrightarrow> place hs level m t acc = Inr (lv, r, rem) \<Longrightarrow>
     level \<le> lv \<and> lv < length hs \<and> r < 256 \<and> acc \<le> rem \<and> rem \<le> acc + int m * (t - 1)"
proof (induction hs level m t acc rule: place.induct)
  case (1 hs level m t acc)
  note res = "1.prems"(3)[unfolded place.simps[of hs level m t acc]]
  show ?case
  proof (cases "length hs \<le> level")
    case True
    with res show ?thesis by simp
  next
    case inb: False
    let ?h = "hs ! level"
    let ?r = "MOD_BY_BUCKETS (int ?h + t)"
    let ?q = "DIV_BY_BUCKETS (int ?h + t)"
    have r: "?r < 256" by (simp add: MOD_BY_BUCKETS_def)
    have h: "?h < 256" using "1.prems"(1) inb by simp
    have t: "0 \<le> int m * (t - 1)" using "1.prems"(2) by simp
    show ?thesis
    proof (cases "0 < ?q")
      case False
      with res inb r t show ?thesis by (auto simp: Let_def)
    next
      case q: True
      note cb = carry_bound[OF h q, of m]
      show ?thesis
      proof (cases "level + 1 < WHEEL_MAX_LEVELS")
        case False
        with res inb q r cb show ?thesis by (auto simp: Let_def)
      next
        case True
        with res inb q have
          "place hs (level + 1) (m * WHEEL_BUCKETS) ?q (acc + int (?r * m)) = Inr (lv, r, rem)"
          by (simp add: Let_def)
        from "1.IH"[OF inb refl refl q True "1.prems"(1) q this]
        have ih: "level + 1 \<le> lv" "lv < length hs" "r < 256" "acc + int (?r * m) \<le> rem"
          "rem \<le> acc + int (?r * m) + int (m * WHEEL_BUCKETS) * (?q - 1)"
          by simp_all
        moreover have "0 \<le> int (?r * m)" by simp
        ultimately show ?thesis using cb(2) by (intro conjI; linarith)
      qed
    qed
  qed
qed
lemma hands_ok_map: "hands_ok s \<Longrightarrow> \<forall>i < length (map hand (wheel s)). map hand (wheel s) ! i < 256"
  by (simp add: hands_ok_def WHEEL_BUCKETS_def)

lemma ttimer_start_remaining:
  assumes h: "hands_ok s" and st: "ttimer_start s e t = Inr s'"
  shows "0 \<le> remaining (refs s' e)" "remaining (refs s' e) < t"
proof -
  from st have t: "0 < t" by (rule ttimer_start_Inr(2))
  from st obtain lv r rem where
    p: "place (map hand (wheel s)) 0 1 t 0 = Inr (lv, r, rem)"
    and s': "s' = set_scheduled (list_insert_head (set_remaining s e rem) lv r e) e True"
    by (auto simp: ttimer_start_place split: if_splits sum.splits)
  from place_bounds[OF hands_ok_map[OF h] t p] have "0 \<le> rem" "rem \<le> t - 1" by simp_all
  with s' show "0 \<le> remaining (refs s' e)" "remaining (refs s' e) < t" by simp_all
qed

lemma hands_ok_same_frame: "same_frame s s' \<Longrightarrow> hands_ok s \<Longrightarrow> hands_ok s'"
  by (simp add: same_frame_def hands_ok_def)

lemma hands_ok_set_hand: "hands_ok s \<Longrightarrow> n < WHEEL_BUCKETS \<Longrightarrow> hands_ok (set_hand s level n)"
  by (simp add: hands_ok_def)
lemma drain_step_load:
  assumes ok: "links_ok s" and h: "hands_ok s"
    and lv: "level < length (wheel s)" and n: "n < WHEEL_BUCKETS"
    and b: "bucket (wheel s ! level) n = e # rest"
    and st: "drain_step s e = Inr s'"
  shows "drain_load s' level n < drain_load s level n"
proof -
  let ?s1 = "set_scheduled (list_remove s e) e False"
  let ?f = "\<lambda>s a. nat (remaining (refs s a)) + 1"
  from ok lv n b have "distinct (e # rest)"
    unfolding links_ok_def by metis
  then have e: "e \<notin> set rest" by simp
  have b1: "bucket (wheel ?s1 ! level) n = rest"
    using lv b by simp
  have load: "drain_load s level n = ?f s e + sum_list (map (?f s) rest)"
    by (simp add: drain_load_def b)
  show ?thesis
  proof (cases "remaining (refs s e) = 0")
    case True
    with st have s': "s' = invoke ?s1 e"
      by (auto simp: drain_step_def split: if_splits)
    have oth: "\<forall>a \<in> set rest. ?f s' a = ?f s a"
      using e by (auto simp: s')
    have bs: "bucket (wheel s' ! level) n = rest"
      using b1 by (simp add: s')
    have "drain_load s' level n = sum_list (map (?f s') rest)"
      by (simp only: drain_load_def bs)
    also have "\<dots> = sum_list (map (?f s) rest)"
      using oth by (intro arg_cong[where f = sum_list] map_cong) simp_all
    finally have "drain_load s' level n = sum_list (map (?f s) rest)" .
    with load show ?thesis by simp
  next
    case False
    with st have start: "ttimer_start ?s1 e (remaining (refs s e)) = Inr s'"
      by (auto simp: drain_step_def split: if_splits)
    have h1: "hands_ok ?s1"
      using h by (simp add: hands_ok_def)
    from ttimer_start_remaining[OF h1 start]
    have v: "nat (remaining (refs s' e)) < nat (remaining (refs s e))" by simp
    from ttimer_start_Inr(1)[OF start] obtain v l r where
      l: "l < length (wheel s)" and
      s': "s' = set_scheduled (list_insert_head (set_remaining ?s1 e v) l r e) e True"
      by auto
    have oth: "\<forall>a \<in> set rest. ?f s' a = ?f s a"
      using e by (auto simp: s')
    have map: "sum_list (map (?f s') rest) = sum_list (map (?f s) rest)"
      using oth by (intro arg_cong[where f = sum_list] map_cong) simp_all
    have bs: "bucket (wheel s' ! level) n = (if l = level \<and> n = r then e # rest else rest)"
      using lv l b by (auto simp: s')
    have "drain_load s' level n \<le> ?f s' e + sum_list (map (?f s') rest)"
      by (simp only: drain_load_def bs) simp
    also have "\<dots> < ?f s e + sum_list (map (?f s) rest)"
      using v by (simp only: map)
    finally show ?thesis by (simp only: load)
  qed
qed

lemma tick_drain_terminates:
  "links_ok s \<Longrightarrow> hands_ok s \<Longrightarrow> n < WHEEL_BUCKETS \<Longrightarrow> \<exists>res. tick_drain s level n = Some res"
proof (induction "drain_load s level n" arbitrary: s rule: less_induct)
  case less
  show ?case
  proof (cases "length (wheel s) \<le> level")
    case True
    then show ?thesis by (subst tick_drain_unfold) simp
  next
    case inb: False
    show ?thesis
    proof (cases "bucket (wheel s ! level) n")
      case Nil
      with inb show ?thesis by (subst tick_drain_unfold) simp
    next
      case (Cons e rest)
      show ?thesis
      proof (cases "drain_step s e")
        case (Inl x)
        with inb Cons show ?thesis by (subst tick_drain_unfold) simp
      next
        case (Inr s')
        from inb have lv: "level < length (wheel s)" by simp
        have "drain_load s' level n < drain_load s level n"
          using drain_step_load[OF less.prems(1,2) lv less.prems(3) Cons Inr] .
        moreover have "links_ok s'" using links_ok_drain_step[OF less.prems(1) Inr] .
        moreover have "hands_ok s'"
          using hands_ok_same_frame[OF drain_step_same_frame[OF Inr] less.prems(2)] .
        ultimately have "\<exists>res. tick_drain s' level n = Some res"
          using less.hyps less.prems(3) by blast
        with inb Cons Inr show ?thesis by (subst tick_drain_unfold) simp
      qed
    qed
  qed
qed
lemma tick_next_terminates:
  "links_ok s \<Longrightarrow> hands_ok s \<Longrightarrow> \<exists>res. tick_next s level = Some res"
proof (induction "levels s - level" arbitrary: s level rule: less_induct)
  case less
  let ?n = "Suc (hand (wheel s ! level)) mod 256"
  show ?case
  proof (cases "length (wheel s) \<le> level")
    case True
    then show ?thesis by (subst tick_next_unfold) simp
  next
    case inb: False
    have "?n < WHEEL_BUCKETS" by (simp add: WHEEL_BUCKETS_def)
    from tick_drain_terminates[OF less.prems this, of level]
    obtain r where d: "tick_drain s level ?n = Some r" by blast
    show ?thesis
    proof (cases r)
      case (Inl e)
      with inb d show ?thesis by (subst tick_next_unfold) simp
    next
      case (Inr s1)
      show ?thesis
      proof (cases "?n = 0 \<and> level + 1 < levels s1")
        case False
        with inb d Inr show ?thesis by (subst tick_next_unfold) auto
      next
        case True
        let ?s2 = "set_hand s1 level 0"
        from d Inr have d': "tick_drain s level ?n = Some (Inr s1)" by simp
        have "links_ok s1"
          using links_ok_tick_drain[OF d] less.prems(1) Inr by simp
        then have ok: "links_ok ?s2" by (simp add: links_ok_frame)
        have "hands_ok s1"
          using tick_drain_same_frame[OF d] Inr less.prems(2) hands_ok_same_frame by blast
        then have h: "hands_ok ?s2" by (simp add: hands_ok_set_hand WHEEL_BUCKETS_def)
        have "levels ?s2 - (level + 1) < levels s - level"
          using True tick_drain_frame(1)[OF d'] by auto
        from less.hyps[OF this ok h] obtain res where "tick_next ?s2 (level + 1) = Some res"
          by blast
        with inb d Inr True show ?thesis by (subst tick_next_unfold) simp
      qed
    qed
  qed
qed

lemma hands_ok_fresh_state: "hands_ok (fresh_state m now)"
  by (auto simp: hands_ok_def fresh_state_def with_refs_def ttimer_create_def empty_wheel_def
      WHEEL_BUCKETS_def Let_def)


lemma hands_ok_start: "hands_ok s \<Longrightarrow> ttimer_start s e t = Inr s' \<Longrightarrow> hands_ok s'"
  using ttimer_start_frame(4,5)[of s e t s'] by (simp add: hands_ok_def)

section \<open>The invariants in the states the interface produces\<close>

text \<open>
  Both invariants used above hold for a created wheel beside idle references, and every
  operation of the interface keeps them: \<^verbatim>\<open>ttimer_setfunc\<close> on an unscheduled reference,
  successful starts, stops and ticks.
\<close>

lemma hands_ok_tick_next:
  assumes "tick_next s level = Some res"
  shows "hands_ok s \<longrightarrow> holds_on hands_ok res"
  using assms
proof (induction s level res rule: tick_next_induct)
  case (Last s level s1)
  from tick_drain_same_frame[OF Last(2)] have "same_frame s s1" by simp
  then show ?case
    by (auto simp: WHEEL_BUCKETS_def intro!: hands_ok_set_hand dest: hands_ok_same_frame)
next
  case (Next s level s1 res)
  from tick_drain_same_frame[OF Next(2)] have "same_frame s s1" by simp
  then have "hands_ok s \<Longrightarrow> hands_ok (set_hand s1 level 0)"
    by (auto simp: WHEEL_BUCKETS_def intro!: hands_ok_set_hand dest: hands_ok_same_frame)
  with Next(5) show ?case by blast
qed simp_all

lemma hands_ok_tick: "hands_ok s \<Longrightarrow> ttimer_tick s = Some (Inr s') \<Longrightarrow> hands_ok s'"
  using hands_ok_tick_next[of s 0 "Inr s'"] by (simp add: ttimer_tick_def)

lemma hands_ok_stop: "hands_ok s \<Longrightarrow> hands_ok (snd (ttimer_stop s e))"
  by (simp add: ttimer_stop_def hands_ok_def Let_def)

lemma hands_ok_setfunc: "hands_ok (ttimer_setfunc s e f a) = hands_ok s"
  by (simp add: ttimer_setfunc_def hands_ok_def)

lemma links_ok_setfunc:
  "links_ok s \<Longrightarrow> \<not> scheduled (refs s e) \<Longrightarrow> links_ok (ttimer_setfunc s e f a)"
  by (auto simp: ttimer_setfunc_def links_ok_def linked_def)

lemma links_ok_created:
  "ttimer_create ok m now = Some t \<Longrightarrow> \<forall>a. \<not> scheduled (rs a) \<Longrightarrow> links_ok (with_refs t rs)"
  by (auto simp: links_ok_def linked_def with_refs_def ttimer_create_def empty_wheel_def Let_def
      split: if_splits)

lemma hands_ok_created:
  "ttimer_create ok m now = Some t \<Longrightarrow> hands_ok (with_refs t rs)"
  by (auto simp: hands_ok_def with_refs_def ttimer_create_def empty_wheel_def WHEEL_BUCKETS_def
      Let_def split: if_splits)

section \<open>A tick returns normally in the states the interface produces\<close>

text \<open>
  A successful start keeps the strong invariant: the placement puts a reference on level 0
  only with remaining time zero, and on level 1 only with the level-0 digit as remaining
  time. With it, a drain step always succeeds (the re-insertion of a reference found on
  level 1 stays within levels 0 and 1, and on a wheel with a level 2 all three levels
  exist), so a tick returns a state and the invariant holds again.
\<close>

lemma place_level:
  "place hs level m t acc = Inr (lv, r, rem) \<Longrightarrow> level \<le> lv \<and> lv < length hs"
proof (induction hs level m t acc rule: place.induct)
  case (1 hs level m t acc)
  note res = "1.prems"[unfolded place.simps[of hs level m t acc]]
  let ?q = "DIV_BY_BUCKETS (int (hs ! level) + t)"
  show ?case
  proof (cases "\<not> length hs \<le> level \<and> 0 < ?q \<and> level + 1 < WHEEL_MAX_LEVELS")
    case True
    with res have "place hs (level + 1) (m * WHEEL_BUCKETS) ?q
        (acc + int (MOD_BY_BUCKETS (int (hs ! level) + t) * m)) = Inr (lv, r, rem)"
      by (simp add: Let_def)
    from "1.IH"[OF _ refl refl _ _ this] True show ?thesis by simp
  next
    case False
    with res show ?thesis by (auto simp: Let_def split: if_splits)
  qed
qed

lemma place_stays:
  assumes "place hs level m t acc = Inr (level, r, rem)"
  shows "rem = acc \<or> WHEEL_MAX_LEVELS \<le> level + 1"
proof -
  note res = assms[unfolded place.simps[of hs level m t acc]]
  let ?q = "DIV_BY_BUCKETS (int (hs ! level) + t)"
  show ?thesis
  proof (cases "\<not> length hs \<le> level \<and> 0 < ?q \<and> level + 1 < WHEEL_MAX_LEVELS")
    case True
    with res have "place hs (level + 1) (m * WHEEL_BUCKETS) ?q
        (acc + int (MOD_BY_BUCKETS (int (hs ! level) + t) * m)) = Inr (level, r, rem)"
      by (simp add: Let_def)
    from place_level[OF this] show ?thesis by simp
  next
    case False
    with res show ?thesis by (auto simp: Let_def split: if_splits)
  qed
qed

lemma place_fits:
  assumes h: "\<forall>i < length hs. hs ! i < 256" and t: "0 < t"
    and p: "place hs 0 1 t 0 = Inr (lv, r, rem)"
  shows "rem_fits lv rem"
proof -
  from place_bounds[OF h t p] have nn: "0 \<le> rem" by simp
  let ?r0 = "MOD_BY_BUCKETS (int (hs ! 0) + t)" and ?q0 = "DIV_BY_BUCKETS (int (hs ! 0) + t)"
  have zero: "rem = 0" if "lv = 0"
    using place_stays[of hs 0 1 t 0 r rem] p that by (simp add: WHEEL_MAX_LEVELS_def)
  have one: "rem < 256" if lv: "lv = 1"
  proof -
    from p lv have "\<not> length hs \<le> 0 \<and> 0 < ?q0"
      by (auto simp: place.simps[of hs 0] Let_def split: if_splits)
    with p lv have "place hs (0 + 1) (1 * WHEEL_BUCKETS) ?q0 (0 + int (?r0 * 1)) = Inr (0 + 1, r, rem)"
      by (simp add: place.simps[of hs 0] Let_def WHEEL_MAX_LEVELS_def)
    from place_stays[OF this] have "rem = int ?r0"
      by (simp add: WHEEL_MAX_LEVELS_def)
    then show ?thesis by (simp add: MOD_BY_BUCKETS_def)
  qed
  from nn zero one show ?thesis by (simp add: rem_fits_def)
qed

lemma place_from_level1:
  assumes "0 < length hs" and "hs ! 0 = 0" and "0 < x" and "x < 256"
  shows "place hs 0 1 x 0 = Inr (0, nat x, 0)"
  using assms
  by (simp add: place.simps[of hs 0] MOD_BY_BUCKETS_def DIV_BY_BUCKETS_def Let_def)

lemma place_total:
  "WHEEL_MAX_LEVELS \<le> length hs \<Longrightarrow> level < WHEEL_MAX_LEVELS \<Longrightarrow>
     \<exists>lv r rem. place hs level m t acc = Inr (lv, r, rem)"
proof (induction hs level m t acc rule: place.induct)
  case (1 hs level m t acc)
  let ?q = "DIV_BY_BUCKETS (int (hs ! level) + t)"
  from "1.prems" have inb: "\<not> length hs \<le> level" by simp
  show ?case
  proof (cases "0 < ?q \<and> level + 1 < WHEEL_MAX_LEVELS")
    case True
    from "1.IH"[OF inb refl refl _ _ "1.prems"(1)] True
    obtain lv r rem where "place hs (level + 1) (m * WHEEL_BUCKETS) ?q
        (acc + int (MOD_BY_BUCKETS (int (hs ! level) + t) * m)) = Inr (lv, r, rem)"
      by blast
    with True inb show ?thesis
      by (subst place.simps) (simp add: Let_def)
  next
    case False
    with inb show ?thesis
      by (subst place.simps) (auto simp: Let_def)
  qed
qed
lemma wheel_inv_linked:
  "wheel_inv s \<Longrightarrow> linked s a l i \<Longrightarrow>
     func (refs s a) \<noteq> None \<and> rem_fits l (remaining (refs s a))"
  unfolding wheel_inv_def by blast

lemma wheel_inv_start:
  assumes inv: "wheel_inv s" and st: "ttimer_start s e t = Inr s'"
  shows "wheel_inv s'"
proof -
  from st have t: "0 < t" and idle: "\<not> scheduled (refs s e)" and f: "func (refs s e) \<noteq> None"
    by (rule ttimer_start_Inr(2-4))+
  from st t idle f obtain lv r rem where
    p: "place (map hand (wheel s)) 0 1 t 0 = Inr (lv, r, rem)"
    and s': "s' = set_scheduled (list_insert_head (set_remaining s e rem) lv r e) e True"
    by (auto simp: ttimer_start_place split: sum.splits if_splits)
  from inv have ok: "links_ok s" and h: "hands_ok s" by (simp_all add: wheel_inv_def)
  from place_level[OF p] have lv: "lv < length (wheel s)" by simp
  from place_bounds[OF hands_ok_map[OF h] t p] have r: "r < WHEEL_BUCKETS"
    by (simp add: WHEEL_BUCKETS_def)
  from place_fits[OF hands_ok_map[OF h] t p] have fits: "rem_fits lv rem" .
  from ok idle have free: "\<not> linked s e l i" for l i
    unfolding links_ok_def by blast
  have lk: "linked s' a l i = (linked s a l i \<or> (a = e \<and> l = lv \<and> i = r))" for a l i
    using lv r by (simp add: s')
  have "func (refs s' a) \<noteq> None \<and> rem_fits l (remaining (refs s' a))" if "linked s' a l i" for a l i
  proof (cases "a = e")
    case True
    with that free have "l = lv" unfolding lk by blast
    with True f fits show ?thesis by (simp add: s')
  next
    case False
    with that have "linked s a l i" unfolding lk by blast
    from wheel_inv_linked[OF inv this] False show ?thesis by (simp add: s')
  qed
  moreover have "links_ok s'" using links_ok_start[OF ok st] .
  moreover have "hands_ok s'" using hands_ok_start[OF h st] .
  moreover have "length (wheel s') = levels s' \<and> 0 < levels s' \<and> levels s' \<le> WHEEL_MAX_LEVELS"
    using inv ttimer_start_frame(1,4)[OF st] by (simp add: wheel_inv_def)
  ultimately show ?thesis unfolding wheel_inv_def by blast
qed

lemma wheel_inv_unlink:
  assumes inv: "wheel_inv s"
  shows "wheel_inv (set_scheduled (list_remove s e) e False)"
proof -
  let ?s = "set_scheduled (list_remove s e) e False"
  from inv have ok: "links_ok s" and h: "hands_ok s" by (simp_all add: wheel_inv_def)
  have lk: "linked ?s a l i = (linked s a l i \<and> a \<noteq> e)" for a l i
    using ok by (simp add: linked_list_remove)
  have "func (refs ?s a) \<noteq> None \<and> rem_fits l (remaining (refs ?s a))" if "linked ?s a l i" for a l i
    using that wheel_inv_linked[OF inv, of a l i] unfolding lk by simp
  moreover have "links_ok ?s" using links_ok_unlink(1)[OF ok] .
  moreover have "hands_ok ?s" using h by (simp add: hands_ok_def)
  moreover have "length (wheel ?s) = levels ?s \<and> 0 < levels ?s \<and> levels ?s \<le> WHEEL_MAX_LEVELS"
    using inv by (simp add: wheel_inv_def)
  ultimately show ?thesis unfolding wheel_inv_def by blast
qed

lemma wheel_inv_frame:
  "wheel_inv (invoke s e) = wheel_inv s"
  "n < WHEEL_BUCKETS \<Longrightarrow> wheel_inv s \<Longrightarrow> wheel_inv (set_hand s l n)"
  by (simp_all add: wheel_inv_def links_ok_frame hands_ok_def)

lemma drain_step_ok:
  assumes inv: "wheel_inv s" and lz: "lower_zero s k"
    and k: "k < length (wheel s)" and n: "n < WHEEL_BUCKETS"
    and b: "bucket (wheel s ! k) n = e # rest"
  shows "\<exists>s'. drain_step s e = Inr s' \<and> wheel_inv s'"
proof -
  let ?s1 = "set_scheduled (list_remove s e) e False"
  let ?x = "remaining (refs s e)"
  from k n b have lk: "linked s e k n" by (simp add: linked_def)
  from inv have ok: "links_ok s" by (simp add: wheel_inv_def)
  from ok lk have sch: "scheduled (refs s e)" unfolding links_ok_def by blast
  from wheel_inv_linked[OF inv lk] have f: "func (refs s e) \<noteq> None" and fits: "rem_fits k ?x"
    by simp_all
  have inv1: "wheel_inv ?s1" using wheel_inv_unlink[OF inv] .
  show ?thesis
  proof (cases "?x = 0")
    case True
    with sch f inv1 show ?thesis by (simp add: drain_step_def wheel_inv_frame)
  next
    case False
    with fits have pos: "0 < ?x" and k0: "k \<noteq> 0" by (auto simp: rem_fits_def)
    let ?hs = "map hand (wheel ?s1)"
    have "\<exists>lv r rem. place ?hs 0 1 ?x 0 = Inr (lv, r, rem)"
    proof (cases "k = 1")
      case True
      with fits have "?x < 256" by (simp add: rem_fits_def)
      moreover from k have k0': "0 < length (wheel s)" by (cases "wheel s") simp_all
      have "?hs ! 0 = hand (wheel ?s1 ! 0)" using k by (intro nth_map) auto
      moreover have "hand (wheel ?s1 ! 0) = hand (wheel s ! 0)"
        using hand_list_remove[OF k0', of e] by simp
      moreover from lz True have "hand (wheel s ! 0) = 0" by (simp add: lower_zero_def)
      ultimately have "?x < 256" "?hs ! 0 = 0" by simp_all
      then
      show ?thesis
        using place_from_level1[of ?hs ?x] pos k0' by simp
    next
      case False
      with k0 have "2 \<le> k" by simp
      with k inv have "WHEEL_MAX_LEVELS \<le> length ?hs"
        by (simp add: wheel_inv_def WHEEL_MAX_LEVELS_def)
      then show ?thesis by (intro place_total) (simp_all add: WHEEL_MAX_LEVELS_def)
    qed
    then obtain lv r rem where p: "place ?hs 0 1 ?x 0 = Inr (lv, r, rem)" by blast
    from place_level[OF p] have "lv < length (wheel ?s1)" by simp
    with p pos f have "\<exists>s'. ttimer_start ?s1 e ?x = Inr s'"
      by (simp add: ttimer_start_place)
    then obtain s' where st: "ttimer_start ?s1 e ?x = Inr s'" by blast
    from wheel_inv_start[OF inv1 st] have "wheel_inv s'" .
    with st sch False show ?thesis by (simp add: drain_step_def)
  qed
qed

lemma lower_zero_same_frame:
  "same_frame s s' \<Longrightarrow> k < length (wheel s) \<Longrightarrow> lower_zero s k \<Longrightarrow> lower_zero s' k"
  by (simp add: same_frame_def lower_zero_def)

lemma tick_drain_ok:
  assumes "tick_drain s k n = Some res" and "n < WHEEL_BUCKETS"
  shows "wheel_inv s \<longrightarrow> lower_zero s k \<longrightarrow> k < length (wheel s) \<longrightarrow> holds_on wheel_inv res \<and> (\<exists>s'. res = Inr s')"
  using assms(1)
proof (induction s res rule: tick_drain_induct)
  case (Error s e rest x)
  show ?case
  proof (intro impI)
    assume "wheel_inv s" "lower_zero s k" "k < length (wheel s)"
    from drain_step_ok[OF this assms(2) Error(2)] Error(3)
    show "holds_on wheel_inv (Inl x) \<and> (\<exists>s'. Inl x = Inr s')" by simp
  qed
next
  case (Step s e rest s' res)
  show ?case
  proof (intro impI)
    assume a: "wheel_inv s" "lower_zero s k" "k < length (wheel s)"
    from drain_step_ok[OF this assms(2) Step(2)] Step(3) have "wheel_inv s'" by simp
    moreover note sf = drain_step_same_frame[OF Step(3)]
    have "lower_zero s' k" using lower_zero_same_frame[OF sf a(3) a(2)] .
    moreover have "k < length (wheel s')" using sf a(3) by (simp add: same_frame_def)
    ultimately show "holds_on wheel_inv res \<and> (\<exists>s'. res = Inr s')"
      using Step(4) by blast
  qed
qed auto

lemma lower_zero_next:
  assumes "lower_zero s k" and "same_frame s s1" and "k < length (wheel s)"
  shows "lower_zero (set_hand s1 k 0) (k + 1)"
  using assms by (auto simp: lower_zero_def same_frame_def less_Suc_eq)

lemma tick_next_ok:
  assumes "tick_next s k = Some res"
  shows "wheel_inv s \<longrightarrow> lower_zero s k \<longrightarrow> k < length (wheel s) \<longrightarrow> holds_on wheel_inv res \<and> (\<exists>s'. res = Inr s')"
  using assms
proof (induction s k res rule: tick_next_induct)
  case (Error s k x)
  have "Suc (hand (wheel s ! k)) mod 256 < WHEEL_BUCKETS" by (simp add: WHEEL_BUCKETS_def)
  from tick_drain_ok[OF Error(2) this] show ?case by simp
next
  case (Last s k s1)
  have n: "Suc (hand (wheel s ! k)) mod 256 < WHEEL_BUCKETS" by (simp add: WHEEL_BUCKETS_def)
  from tick_drain_ok[OF Last(2) n] show ?case
    by (simp add: wheel_inv_frame WHEEL_BUCKETS_def)
next
  case (Next s k s1 res)
  show ?case
  proof (intro impI)
    assume a: "wheel_inv s" "lower_zero s k" "k < length (wheel s)"
    have n: "0 < WHEEL_BUCKETS" by (simp add: WHEEL_BUCKETS_def)
    from tick_drain_ok[OF Next(2) n] a have inv1: "wheel_inv s1" by simp
    then have "wheel_inv (set_hand s1 k 0)" by (simp add: wheel_inv_frame n)
    moreover from tick_drain_same_frame[OF Next(2)] have sf: "same_frame s s1" by simp
    from lower_zero_next[OF a(2) sf a(3)] have "lower_zero (set_hand s1 k 0) (k + 1)" .
    moreover from inv1 Next(4) have "k + 1 < length (wheel (set_hand s1 k 0))"
      by (simp add: wheel_inv_def)
    ultimately show "holds_on wheel_inv res \<and> (\<exists>s'. res = Inr s')"
      using Next(5) by blast
  qed
qed auto

lemma wheel_inv_tick:
  assumes "wheel_inv s"
  shows "\<exists>s'. ttimer_tick s = Some (Inr s') \<and> wheel_inv s'"
proof -
  from assms have "links_ok s" "hands_ok s" "0 < length (wheel s)"
    by (simp_all add: wheel_inv_def)
  from tick_next_terminates[OF this(1,2), of 0] obtain res where r: "tick_next s 0 = Some res"
    by blast
  from tick_next_ok[OF r] assms \<open>0 < length (wheel s)\<close>
  have "holds_on wheel_inv res \<and> (\<exists>s'. res = Inr s')"
    by (simp add: lower_zero_def)
  with r show ?thesis by (auto simp: ttimer_tick_def)
qed

text \<open>
  The invariant holds for a created wheel beside idle references and for an empty wheel
  with any hands, and \<^verbatim>\<open>ttimer_stop\<close> and \<^verbatim>\<open>ttimer_setfunc\<close> on an unscheduled reference
  keep it.
\<close>

lemma wheel_inv_stop: "wheel_inv s \<Longrightarrow> wheel_inv (snd (ttimer_stop s e))"
  by (simp add: ttimer_stop_def Let_def wheel_inv_unlink)


lemma create_levels_bounds: "0 < create_levels m \<and> create_levels m \<le> WHEEL_MAX_LEVELS"
  unfolding create_levels_def Let_def WHEEL_MAX_LEVELS_def
  by (cases "count_levels m 0 = 0") (simp_all del: count_levels.simps)

lemma wheel_inv_created:
  assumes "ttimer_create ok m now = Some t" and "\<forall>a. \<not> scheduled (rs a)"
  shows "wheel_inv (with_refs t rs)"
proof -
  from assms(1) have t: "t = \<lparr>levels = create_levels m, lastrun = now,
      wheel = replicate (create_levels m) empty_wheel\<rparr>"
    by (simp add: ttimer_create_def Let_def split: if_splits)
  have "\<not> linked (with_refs t rs) e l i" for e l i
    unfolding t by (simp add: linked_def with_refs_def empty_wheel_def)
  moreover have "length (wheel (with_refs t rs)) = create_levels m"
    "levels (with_refs t rs) = create_levels m"
    unfolding t by (simp_all add: with_refs_def)
  ultimately show ?thesis
    using links_ok_created[OF assms] hands_ok_created[OF assms(1), of rs]
      create_levels_bounds[of m]
    by (simp add: wheel_inv_def)
qed

lemma wheel_inv_setfunc:
  assumes "wheel_inv s" and "\<not> scheduled (refs s e)"
  shows "wheel_inv (ttimer_setfunc s e f a)"
proof -
  from assms(1) have ok: "links_ok s" by (simp add: wheel_inv_def)
  have nl: "\<not> linked s e l i" for l i
    using ok assms(2) unfolding links_ok_def by blast
  have lk: "linked (ttimer_setfunc s e f a) x l i = linked s x l i" for x l i
    by (simp add: linked_def ttimer_setfunc_def)
  have "func (refs (ttimer_setfunc s e f a) x) \<noteq> None
      \<and> rem_fits l (remaining (refs (ttimer_setfunc s e f a) x))"
    if "linked (ttimer_setfunc s e f a) x l i" for x l i
  proof -
    from that have l: "linked s x l i" by (simp add: lk)
    with nl have "x \<noteq> e" by blast
    with wheel_inv_linked[OF assms(1) l] show ?thesis by (simp add: ttimer_setfunc_def)
  qed
  moreover have "links_ok (ttimer_setfunc s e f a)" using links_ok_setfunc[OF ok assms(2)] .
  moreover have "hands_ok (ttimer_setfunc s e f a)" using assms(1)
    by (simp add: hands_ok_setfunc wheel_inv_def)
  moreover have "length (wheel (ttimer_setfunc s e f a)) = levels (ttimer_setfunc s e f a)
      \<and> 0 < levels (ttimer_setfunc s e f a) \<and> levels (ttimer_setfunc s e f a) \<le> WHEEL_MAX_LEVELS"
    using assms(1) by (simp add: wheel_inv_def ttimer_setfunc_def)
  ultimately show ?thesis unfolding wheel_inv_def by blast
qed

section \<open>Termination of a tick (C10)\<close>

subsection \<open>The tick with callbacks that call into the wheel\<close>

text \<open>
  The drain loop of \<open>tick_drain_cb\<close> iterates \<open>drain_step_cb\<close>; with callbacks that make
  no call it is the drain loop of \<open>ttimer_tick\<close>.
\<close>

lemma tick_drain_cb_unfold:
  "tick_drain_cb cbs s level n =
     (if length (wheel s) \<le> level then Some (Inl (Out_of_bounds level))
      else case bucket (wheel s ! level) n of
        [] \<Rightarrow> Some (Inr s)
      | ent # rest \<Rightarrow>
          (case drain_step_cb cbs s ent of
             Inl e \<Rightarrow> Some (Inl e)
           | Inr s' \<Rightarrow> tick_drain_cb cbs s' level n))"
proof (cases "length (wheel s) \<le> level")
  case True
  then show ?thesis by (subst tick_drain_cb.simps) simp
next
  case inb: False
  show ?thesis
  proof (cases "bucket (wheel s ! level) n")
    case Nil
    with inb show ?thesis by (subst tick_drain_cb.simps) simp
  next
    case (Cons ent rest)
    show ?thesis
    proof (cases "scheduled (refs s ent)")
      case False
      with inb Cons show ?thesis
        by (subst tick_drain_cb.simps) (simp add: drain_step_cb_def)
    next
      case sch: True
      show ?thesis
      proof (cases "remaining (refs s ent) = 0")
        case True
        with inb Cons sch show ?thesis
          by (subst tick_drain_cb.simps) (simp add: drain_step_cb_def Let_def)
      next
        case False
        with inb Cons sch show ?thesis
          by (subst tick_drain_cb.simps) (simp add: drain_step_cb_def Let_def)
      qed
    qed
  qed
qed

lemma tick_next_cb_unfold:
  "tick_next_cb cbs s level =
     (if length (wheel s) \<le> level then Some (Inl (Out_of_bounds level))
      else case tick_drain_cb cbs s level (Suc (hand (wheel s ! level)) mod 256) of
        None \<Rightarrow> None
      | Some (Inl e) \<Rightarrow> Some (Inl e)
      | Some (Inr s1) \<Rightarrow>
          if Suc (hand (wheel s ! level)) mod 256 = 0 \<and> level + 1 < levels s1
          then tick_next_cb cbs (set_hand s1 level 0) (level + 1)
          else Some (Inr (set_hand s1 level (Suc (hand (wheel s ! level)) mod 256))))"
  by (subst tick_next_cb.simps)
     (simp add: MOD_BY_BUCKETS_Suc Let_def split: option.split sum.split)

lemma drain_step_cb_restart:
  "remaining (refs s ent) \<noteq> 0 \<Longrightarrow> drain_step_cb cbs s ent = drain_step s ent"
  by (simp add: drain_step_cb_def drain_step_def)

lemma drain_step_cb_fire:
  "remaining (refs s ent) = 0 \<Longrightarrow>
     drain_step_cb cbs s ent =
       (case drain_step s ent of
          Inl e \<Rightarrow> Inl e
        | Inr s' \<Rightarrow> run_actions (cbs (the (func (refs s ent))) ent (arg (refs s ent))) s')"
  by (simp add: drain_step_cb_def drain_step_def invoke_cb_def)

lemma drain_step_cb_quiet: "drain_step_cb quiet s ent = drain_step s ent"
  by (simp add: drain_step_cb_def drain_step_def invoke_cb_def quiet_def)

lemma tick_drain_cb_induct [consumes 1, case_names Out_of_bounds Empty Error Step]:
  assumes run: "tick_drain_cb cbs s level n = Some res"
    and oob: "\<And>s. length (wheel s) \<le> level \<Longrightarrow> P s (Inl (Out_of_bounds level))"
    and emp: "\<And>s. level < length (wheel s) \<Longrightarrow> bucket (wheel s ! level) n = [] \<Longrightarrow> P s (Inr s)"
    and err: "\<And>s ent rest e. level < length (wheel s) \<Longrightarrow> bucket (wheel s ! level) n = ent # rest
                \<Longrightarrow> drain_step_cb cbs s ent = Inl e \<Longrightarrow> P s (Inl e)"
    and step: "\<And>s ent rest s' res. level < length (wheel s) \<Longrightarrow> bucket (wheel s ! level) n = ent # rest
                \<Longrightarrow> drain_step_cb cbs s ent = Inr s' \<Longrightarrow> P s' res \<Longrightarrow> P s res"
  shows "P s res"
proof -
  have "c = cbs \<longrightarrow> l = level \<longrightarrow> m = n \<longrightarrow> P s res" if "tick_drain_cb c s l m = Some res" for c l m
  proof (rule tick_drain_cb.raw_induct[where
        P="\<lambda>c s l m res. c = cbs \<longrightarrow> l = level \<longrightarrow> m = n \<longrightarrow> P s res", OF _ that],
      goal_cases)
    case (1 f c s l m res)
    note IH = "1"(1) and hyp = "1"(2)
    show ?case
    proof (intro impI)
      assume lm: "c = cbs" "l = level" "m = n"
      have body: "(if length (wheel s) \<le> level then Some (Inl (Out_of_bounds level))
        else case bucket (wheel s ! level) n of
          [] \<Rightarrow> Some (Inr s)
        | ent # rest \<Rightarrow>
            (case drain_step_cb cbs s ent of
               Inl e \<Rightarrow> Some (Inl e)
             | Inr s' \<Rightarrow> f cbs s' level n)) = Some res"
        using hyp unfolding lm
        by (auto simp: drain_step_cb_def Let_def split: if_splits list.splits)
      show "P s res"
      proof (cases "length (wheel s) \<le> level")
        case True
        with body oob show ?thesis by auto
      next
        case inb: False
        show ?thesis
        proof (cases "bucket (wheel s ! level) n")
          case Nil
          with body inb emp[of s] show ?thesis by auto
        next
          case (Cons ent rest)
          show ?thesis
          proof (cases "drain_step_cb cbs s ent")
            case (Inl e)
            with body inb Cons err[of s ent rest e] show ?thesis by auto
          next
            case (Inr s')
            with body inb Cons have "f cbs s' level n = Some res" by simp
            from IH[OF this] have "P s' res" by simp
            with inb Cons Inr step[of s ent rest s' res] show ?thesis by auto
          qed
        qed
      qed
    qed
  qed
  with run show ?thesis by blast
qed

lemma tick_next_cb_induct [consumes 1, case_names Out_of_bounds Error Last Next]:
  assumes run: "tick_next_cb cbs s level = Some res"
    and oob: "\<And>s level. length (wheel s) \<le> level \<Longrightarrow> P s level (Inl (Out_of_bounds level))"
    and err: "\<And>s level e. level < length (wheel s) \<Longrightarrow>
                tick_drain_cb cbs s level (Suc (hand (wheel s ! level)) mod 256) = Some (Inl e) \<Longrightarrow>
                P s level (Inl e)"
    and last: "\<And>s level s1. level < length (wheel s) \<Longrightarrow>
                tick_drain_cb cbs s level (Suc (hand (wheel s ! level)) mod 256) = Some (Inr s1) \<Longrightarrow>
                \<not> (Suc (hand (wheel s ! level)) mod 256 = 0 \<and> level + 1 < levels s1) \<Longrightarrow>
                P s level (Inr (set_hand s1 level (Suc (hand (wheel s ! level)) mod 256)))"
    and nxt: "\<And>s level s1 res. level < length (wheel s) \<Longrightarrow>
                tick_drain_cb cbs s level 0 = Some (Inr s1) \<Longrightarrow>
                Suc (hand (wheel s ! level)) mod 256 = 0 \<Longrightarrow> level + 1 < levels s1 \<Longrightarrow>
                P (set_hand s1 level 0) (level + 1) res \<Longrightarrow> P s level res"
  shows "P s level res"
proof -
  have "c = cbs \<longrightarrow> P s level res" if "tick_next_cb c s level = Some res" for c
  proof (rule tick_next_cb.raw_induct[where P="\<lambda>c s level res. c = cbs \<longrightarrow> P s level res", OF _ that],
      goal_cases)
    case (1 f c s level res)
    note IH = "1"(1) and hyp0 = "1"(2)
    let ?n = "Suc (hand (wheel s ! level)) mod 256"
    show ?case
    proof (intro impI)
      assume c: "c = cbs"
      note hyp = hyp0[unfolded c]
      show "P s level res"
      proof (cases "length (wheel s) \<le> level")
        case True
        with hyp oob show ?thesis by auto
      next
        case inb: False
        with hyp obtain r where d: "tick_drain_cb cbs s level ?n = Some r"
          by (auto simp: MOD_BY_BUCKETS_Suc Let_def split: Option.bind_splits)
        show ?thesis
        proof (cases r)
          case (Inl e)
          with hyp inb d err[of level s e] show ?thesis
            by (auto simp: MOD_BY_BUCKETS_Suc Let_def)
        next
          case (Inr s1)
          show ?thesis
          proof (cases "?n = 0 \<and> level + 1 < levels s1")
            case False
            with hyp inb d Inr last[of level s s1] show ?thesis
              by (auto simp: MOD_BY_BUCKETS_Suc Let_def)
          next
            case True
            with hyp inb d Inr have "f cbs (set_hand s1 level 0) (level + 1) = Some res"
              by (auto simp: MOD_BY_BUCKETS_Suc Let_def)
            from IH[OF this] True inb d Inr nxt[of level s s1 res] show ?thesis
              by auto
          qed
        qed
      qed
    qed
  qed
  with run show ?thesis by blast
qed

lemma tick_drain_cb_quiet: "tick_drain_cb quiet s level n = tick_drain s level n"
proof -
  have a: "tick_drain s level n = Some res" if "tick_drain_cb quiet s level n = Some res" for res
    using that
  proof (induction s res rule: tick_drain_cb_induct)
    case (Out_of_bounds s)
    then show ?case by (subst tick_drain_unfold) simp
  next
    case (Empty s)
    then show ?case by (subst tick_drain_unfold) simp
  next
    case (Error s ent rest e)
    then show ?case by (subst tick_drain_unfold) (simp add: drain_step_cb_quiet)
  next
    case (Step s ent rest s' res)
    then show ?case by (subst tick_drain_unfold) (simp add: drain_step_cb_quiet)
  qed
  have b: "tick_drain_cb quiet s level n = Some res" if "tick_drain s level n = Some res" for res
    using that
  proof (induction s res rule: tick_drain_induct)
    case (Out_of_bounds s)
    then show ?case by (subst tick_drain_cb_unfold) simp
  next
    case (Empty s)
    then show ?case by (subst tick_drain_cb_unfold) simp
  next
    case (Error s ent rest e)
    then show ?case by (subst tick_drain_cb_unfold) (simp add: drain_step_cb_quiet)
  next
    case (Step s ent rest s' res)
    then show ?case by (subst tick_drain_cb_unfold) (simp add: drain_step_cb_quiet)
  qed
  show ?thesis
  proof (cases "tick_drain s level n")
    case None
    with a show ?thesis by (cases "tick_drain_cb quiet s level n") auto
  next
    case (Some res)
    with b show ?thesis by simp
  qed
qed

lemma tick_next_cb_quiet: "tick_next_cb quiet s level = tick_next s level"
proof -
  have a: "tick_next s level = Some res" if "tick_next_cb quiet s level = Some res" for res
    using that
  proof (induction s level res rule: tick_next_cb_induct)
    case (Out_of_bounds s level)
    then show ?case by (subst tick_next_unfold) simp
  next
    case (Error s level e)
    then show ?case by (subst tick_next_unfold) (simp add: tick_drain_cb_quiet)
  next
    case (Last s level s1)
    then show ?case by (subst tick_next_unfold) (auto simp: tick_drain_cb_quiet)
  next
    case (Next s level s1 res)
    then show ?case by (subst tick_next_unfold) (simp add: tick_drain_cb_quiet)
  qed
  have b: "tick_next_cb quiet s level = Some res" if "tick_next s level = Some res" for res
    using that
  proof (induction s level res rule: tick_next_induct)
    case (Out_of_bounds s level)
    then show ?case by (subst tick_next_cb_unfold) simp
  next
    case (Error s level e)
    then show ?case by (subst tick_next_cb_unfold) (simp add: tick_drain_cb_quiet)
  next
    case (Last s level s1)
    then show ?case by (subst tick_next_cb_unfold) (auto simp: tick_drain_cb_quiet)
  next
    case (Next s level s1 res)
    then show ?case by (subst tick_next_cb_unfold) (simp add: tick_drain_cb_quiet)
  qed
  show ?thesis
  proof (cases "tick_next s level")
    case None
    with a show ?thesis by (cases "tick_next_cb quiet s level") auto
  next
    case (Some res)
    with b show ?thesis by simp
  qed
qed

lemma ttimer_tick_cb_quiet: "ttimer_tick_cb quiet s = ttimer_tick s"
  by (simp add: ttimer_tick_cb_def ttimer_tick_def tick_next_cb_quiet)

subsection \<open>Callbacks that only stop references\<close>

text \<open>
  A \<^verbatim>\<open>ttimer_stop\<close> called from a callback unlinks a reference: it keeps the invariants and
  the hands, and the load of the bucket being drained does not grow. So every iteration of
  the drain loop still decreases the load, and the tick returns.
\<close>

lemma same_frame_stop: "same_frame s (snd (ttimer_stop s e))"
  by (simp add: ttimer_stop_def Let_def same_frame_def)

lemma sum_list_remove1_le:
  fixes f :: "'a \<Rightarrow> nat"
  shows "sum_list (map f (remove1 x xs)) \<le> sum_list (map f xs)"
  by (induction xs) auto

lemma drain_load_stop:
  assumes "level < length (wheel s)"
  shows "drain_load (snd (ttimer_stop s e)) level n \<le> drain_load s level n"
proof (cases "scheduled (refs s e)")
  case False
  then show ?thesis by (simp add: ttimer_stop_def)
next
  case True
  let ?s1 = "set_scheduled (list_remove s e) e False"
  have rem: "remaining (refs ?s1 a) = remaining (refs s a)" for a
    by (simp add: set_scheduled_def)
  have "drain_load ?s1 level n
      = sum_list (map (\<lambda>a. nat (remaining (refs s a)) + 1) (remove1 e (bucket (wheel s ! level) n)))"
    using assms unfolding drain_load_def rem by simp
  also have "\<dots> \<le> drain_load s level n"
    unfolding drain_load_def by (rule sum_list_remove1_le)
  finally show ?thesis using True by (simp add: ttimer_stop_def)
qed

lemma run_actions_no_start:
  assumes "\<not> list_ex starts acts"
  shows "\<exists>s'. run_actions acts s = Inr s'
           \<and> same_frame s s'
           \<and> (links_ok s \<longrightarrow> links_ok s') \<and> (wheel_inv s \<longrightarrow> wheel_inv s')
           \<and> (\<forall>level n. level < length (wheel s) \<longrightarrow> drain_load s' level n \<le> drain_load s level n)"
  using assms
proof (induction acts arbitrary: s)
  case Nil
  show ?case by simp
next
  case (Cons act acts)
  then obtain e where act: "act = Stop e" by (cases act) simp_all
  let ?s1 = "snd (ttimer_stop s e)"
  from Cons.prems have "\<not> list_ex starts acts" by simp
  from Cons.IH[OF this, of ?s1] obtain s' where
    r: "run_actions acts ?s1 = Inr s'" and sf: "same_frame ?s1 s'"
    and ok: "links_ok ?s1 \<longrightarrow> links_ok s'" and wi: "wheel_inv ?s1 \<longrightarrow> wheel_inv s'"
    and ld: "\<forall>level n. level < length (wheel ?s1) \<longrightarrow> drain_load s' level n \<le> drain_load ?s1 level n"
    by blast
  have sf1: "same_frame s ?s1" by (rule same_frame_stop)
  have len: "length (wheel ?s1) = length (wheel s)" using sf1 by (simp add: same_frame_def)
  have "drain_load s' level n \<le> drain_load s level n" if "level < length (wheel s)" for level n
    using ld that drain_load_stop[OF that, of e n] len by (metis order_trans)
  with r sf ok wi same_frame_trans[OF sf1 sf] links_ok_stop[of s e] wheel_inv_stop[of s e]
  show ?case by (auto simp: act)
qed

lemma drain_step_cb_error: "drain_step s e = Inl x \<Longrightarrow> drain_step_cb cbs s e = Inl x"
  by (cases "remaining (refs s e) = 0") (simp_all add: drain_step_cb_fire drain_step_cb_restart)

lemma drain_step_cb_no_start:
  assumes ns: "no_start cbs" and st: "drain_step s e = Inr s0"
  shows "\<exists>s'. drain_step_cb cbs s e = Inr s'
           \<and> same_frame s0 s'
           \<and> (links_ok s0 \<longrightarrow> links_ok s') \<and> (wheel_inv s0 \<longrightarrow> wheel_inv s')
           \<and> (\<forall>level n. level < length (wheel s0) \<longrightarrow> drain_load s' level n \<le> drain_load s0 level n)"
proof (cases "remaining (refs s e) = 0")
  case False
  with st show ?thesis by (simp add: drain_step_cb_restart)
next
  case True
  from ns have "\<not> list_ex starts (cbs (the (func (refs s e))) e (arg (refs s e)))"
    by (simp add: no_start_def)
  from run_actions_no_start[OF this, of s0] True st show ?thesis
    by (simp add: drain_step_cb_fire)
qed

lemma tick_drain_cb_total:
  assumes ns: "no_start cbs" and n: "n < WHEEL_BUCKETS"
  shows "links_ok s \<Longrightarrow> hands_ok s \<Longrightarrow>
     \<exists>res. tick_drain_cb cbs s level n = Some res
       \<and> holds_on (\<lambda>s'. links_ok s' \<and> hands_ok s' \<and> same_frame s s') res"
proof (induction "drain_load s level n" arbitrary: s rule: less_induct)
  case less
  show ?case
  proof (cases "length (wheel s) \<le> level")
    case True
    then show ?thesis by (subst tick_drain_cb_unfold) simp
  next
    case inb: False
    then have lv: "level < length (wheel s)" by simp
    show ?thesis
    proof (cases "bucket (wheel s ! level) n")
      case Nil
      with inb less.prems show ?thesis by (subst tick_drain_cb_unfold) simp
    next
      case (Cons e rest)
      show ?thesis
      proof (cases "drain_step s e")
        case (Inl x)
        from drain_step_cb_error[OF this] inb Cons show ?thesis
          by (subst tick_drain_cb_unfold) simp
      next
        case (Inr s0)
        have l0: "drain_load s0 level n < drain_load s level n"
          using drain_step_load[OF less.prems(1,2) lv n Cons Inr] .
        have ok0: "links_ok s0" using links_ok_drain_step[OF less.prems(1) Inr] .
        have sf0: "same_frame s s0" using drain_step_same_frame[OF Inr] .
        then have lv0: "level < length (wheel s0)" using lv by (simp add: same_frame_def)
        from drain_step_cb_no_start[OF ns Inr] obtain s' where
          st: "drain_step_cb cbs s e = Inr s'" and sf: "same_frame s0 s'"
          and ok: "links_ok s0 \<longrightarrow> links_ok s'"
          and ld: "\<forall>level n. level < length (wheel s0) \<longrightarrow> drain_load s' level n \<le> drain_load s0 level n"
          by blast
        from ld lv0 l0 have l': "drain_load s' level n < drain_load s level n"
          by (metis le_less_trans)
        have sf': "same_frame s s'" using same_frame_trans[OF sf0 sf] .
        have ok': "links_ok s'" using ok ok0 by simp
        have h': "hands_ok s'" using hands_ok_same_frame[OF sf' less.prems(2)] .
        from less.hyps[OF l' ok' h'] obtain res where
          r: "tick_drain_cb cbs s' level n = Some res"
          and q: "holds_on (\<lambda>t. links_ok t \<and> hands_ok t \<and> same_frame s' t) res"
          by blast
        from q sf' have "holds_on (\<lambda>t. links_ok t \<and> hands_ok t \<and> same_frame s t) res"
          by (cases res) (auto intro: same_frame_trans)
        with r inb Cons st show ?thesis by (subst tick_drain_cb_unfold) simp
      qed
    qed
  qed
qed

lemma tick_next_cb_total:
  assumes ns: "no_start cbs"
  shows "links_ok s \<Longrightarrow> hands_ok s \<Longrightarrow>
     \<exists>res. tick_next_cb cbs s level = Some res \<and> holds_on (\<lambda>s'. links_ok s' \<and> hands_ok s') res"
proof (induction "levels s - level" arbitrary: s level rule: less_induct)
  case less
  let ?n = "Suc (hand (wheel s ! level)) mod 256"
  show ?case
  proof (cases "length (wheel s) \<le> level")
    case True
    then show ?thesis by (subst tick_next_cb_unfold) simp
  next
    case inb: False
    have n: "?n < WHEEL_BUCKETS" by (simp add: WHEEL_BUCKETS_def)
    from tick_drain_cb_total[OF ns n less.prems, of level]
    obtain r where d: "tick_drain_cb cbs s level ?n = Some r"
      and q: "holds_on (\<lambda>s'. links_ok s' \<and> hands_ok s' \<and> same_frame s s') r" by blast
    show ?thesis
    proof (cases r)
      case (Inl e)
      with inb d show ?thesis by (subst tick_next_cb_unfold) simp
    next
      case (Inr s1)
      with q have ok1: "links_ok s1" and h1: "hands_ok s1" and sf: "same_frame s s1" by simp_all
      have ok2: "links_ok (set_hand s1 level k)" for k using ok1 by (simp add: links_ok_frame)
      have h2: "hands_ok (set_hand s1 level ?n)"
        using h1 n by (simp add: hands_ok_set_hand)
      show ?thesis
      proof (cases "?n = 0 \<and> level + 1 < levels s1")
        case False
        with inb d Inr ok2 h2 show ?thesis by (subst tick_next_cb_unfold) auto
      next
        case True
        let ?s2 = "set_hand s1 level 0"
        from h2 True have h: "hands_ok ?s2" by simp
        have "levels ?s2 - (level + 1) < levels s - level"
          using True sf by (auto simp: same_frame_def)
        from less.hyps[OF this ok2 h] obtain res where
          "tick_next_cb cbs ?s2 (level + 1) = Some res"
          "holds_on (\<lambda>s'. links_ok s' \<and> hands_ok s') res"
          by blast
        with inb d Inr True show ?thesis by (subst tick_next_cb_unfold) simp
      qed
    qed
  qed
qed

lemma tick_cb_returns:
  "links_ok s \<Longrightarrow> hands_ok s \<Longrightarrow> no_start cbs \<Longrightarrow> \<exists>res. ttimer_tick_cb cbs s = Some res"
  using tick_next_cb_total[of cbs s 0] by (auto simp: ttimer_tick_cb_def)





subsection \<open>A callback that restarts its reference\<close>










section \<open>Re-cascading within one tick (C9)\<close>

text \<open>
  C9: the three-level wheel of \<^verbatim>\<open>ttimer_create(256^4, 0)\<close> is ticked 65535 times; its hands
  then stand at 255, 255 and 0. A start with timeout \<open>2 ^ 25 + 1\<close> links the reference
  into bucket 1 of level 2 with remaining \<open>2 ^ 24 + 65536\<close>. The next tick wraps levels 0
  and 1 and drains that bucket (the state \<open>mid\<close>): the reference is drained with
  non-zero remaining and re-inserted by the start algorithm into the bucket being drained
  with remaining 65536, which is not zero; it is drained and re-inserted again and its
  callback is invoked within this same tick.
\<close>

theorem recascade_fires_in_same_tick:
  "case ticks 65535 (fresh_state (256 ^ 4) 0) of
     Some (Inr s0) \<Rightarrow>
       levels s0 = 3 \<and> map hand (wheel s0) = [255, 255, 0] \<and> calls s0 = []
       \<and> (case ttimer_start s0 0 (2 ^ 25 + 1) of
            Inl e \<Rightarrow> False
          | Inr s \<Rightarrow>
              linked s 0 2 1 \<and> remaining (refs s 0) = 2 ^ 24 + 65536
              \<and> (let mid = set_hand (set_hand s 0 0) 1 0 in
                   bucket (wheel mid ! 2) 1 = [0]
                   \<and> (case drain_step mid 0 of
                        Inl e \<Rightarrow> False
                      | Inr s1 \<Rightarrow>
                          calls s1 = [] \<and> linked s1 0 2 1 \<and> remaining (refs s1 0) = 65536))
              \<and> (case ttimer_tick s of
                   Some (Inr s') \<Rightarrow> calls s' = [(1, 0, 0)] \<and> map hand (wheel s') = [0, 0, 1]
                 | _ \<Rightarrow> False))
   | _ \<Rightarrow> False"
  by (simp only: ticks_65535 option.case sum.case) (simp add: eval_defs drain_step_def linked_def)

end
